theory Spec2Isabelle
  imports Main
begin

section \<open>SimpleDB: a JSON file backed key-value store\<close>

text \<open>
  The file \<open>SimpleDB.js\<close> holds two listings of the class \<open>SimpleDB\<close>. The first
  (lines 1 to 192) guards its methods with \<open>proper-lockfile\<close>; the second (lines 193 to
  384) sends its writes through a promise queue and catches a decode error in
  \<open>_readFromFile\<close>. The embedding carries the listing as a field of the store, so that
  one set of definitions covers both.

  The lock of \<open>proper-lockfile\<close> is a directory beside the backing file: \<open>lock\<close>
  rejects with \<open>ELOCKED\<close> when the directory exists, whoever made it, and does not try
  again. In the first listing \<open>create\<close>, \<open>delete\<close> and \<open>batchWrite\<close> hold the lock while
  they call \<open>_readFromFile\<close> and \<open>_writeToFile\<close>, which ask for it again.

  A public method is one step: the client awaits it. The callback of a delayed write
  is two steps, the start of the write and its end, and other steps can come between
  them. The listener of the file watcher is a step of its own. \<open>fs.readFile\<close> fails when
  the file is absent; \<open>fs.writeFile\<close> fails when the store's field \<open>writable\<close> is unset.
\<close>

subsection \<open>JavaScript values\<close>

text \<open>
  Numbers are the integer-valued ones; a function value is known by its source text.
  \<open>Cyclic\<close> is an object that holds itself. On a \<open>BigInt\<close> and on a cyclic object, at
  any depth, \<open>JSON.stringify\<close> throws.
\<close>

datatype jsval =
    Undefined
  | Null
  | Bool bool
  | Num int
  | BigInt int
  | Str string
  | Arr "jsval list"
  | Obj "(string \<times> jsval) list"
  | Func string
  | Cyclic

text \<open>
  The keys of a \<open>Map\<close>, which it compares by SameValueZero: a primitive by its value, an
  object, an array or a function by its identity. \<open>KRef a t\<close> is the object at address
  \<open>a\<close>, for which \<open>ToString\<close> gives the text \<open>t\<close>.
\<close>

datatype jskey =
    KUndefined
  | KNull
  | KBool bool
  | KNum int
  | KStr string
  | KRef nat string

text \<open>\<open>typeof key === "string"\<close>\<close>

fun is_string :: "jskey \<Rightarrow> bool" where
  "is_string (KStr s) = True"
| "is_string k = False"

text \<open>Truthiness, as the operator \<open>||\<close> tests it.\<close>

fun truthy :: "jsval \<Rightarrow> bool" where
  "truthy Undefined = False"
| "truthy Null = False"
| "truthy (Bool b) = b"
| "truthy (Num n) = (n \<noteq> 0)"
| "truthy (BigInt n) = (n \<noteq> 0)"
| "truthy (Str s) = (s \<noteq> [])"
| "truthy (Arr xs) = True"
| "truthy (Obj kvs) = True"
| "truthy (Func src) = True"
| "truthy Cyclic = True"

text \<open>\<open>a || b\<close>\<close>

definition js_or :: "jsval \<Rightarrow> jsval \<Rightarrow> jsval" where
  "js_or a b = (if truthy a then a else b)"

subsection \<open>Decimal strings and array indices\<close>

definition digit_char :: "int \<Rightarrow> char" where
  "digit_char d = ''0123456789'' ! nat (d mod 10)"

function dec :: "int \<Rightarrow> string" where
  "dec n = (if n < 10 then [digit_char n] else dec (n div 10) @ [digit_char (n mod 10)])"
  by pat_completeness auto
termination
  by (relation "measure nat") auto

declare dec.simps [simp del]

definition is_digit :: "char \<Rightarrow> bool" where
  "is_digit c = (c \<in> set ''0123456789'')"

definition digit_val :: "char \<Rightarrow> int" where
  "digit_val c = int (of_char c) - 48"

definition int_of_dec :: "string \<Rightarrow> int" where
  "int_of_dec s = foldl (\<lambda>a c. 10 * a + digit_val c) 0 s"

text \<open>
  An array index is a canonical decimal string with value below \<open>2^32 - 1\<close>. The own
  keys of an ordinary object enumerate the array indices first, ascending, then the
  other string keys in creation order.
\<close>

definition is_array_index :: "string \<Rightarrow> bool" where
  "is_array_index s =
     (s \<noteq> [] \<and> list_all is_digit s \<and> (s = ''0'' \<or> hd s \<noteq> CHR ''0'')
      \<and> int_of_dec s < 4294967295)"

text \<open>
  An object is the list of its own properties in enumeration order.
  \<open>define_prop\<close> is the assignment \<open>obj[k] = v\<close> on such a list.
\<close>

fun define_prop :: "string \<Rightarrow> jsval \<Rightarrow> (string \<times> jsval) list \<Rightarrow> (string \<times> jsval) list" where
  "define_prop k v [] = [(k, v)]"
| "define_prop k v ((k', v') # ps) =
     (if k' = k then (k, v) # ps
      else if is_array_index k \<and> k \<notin> fst ` set ps
              \<and> (\<not> is_array_index k' \<or> int_of_dec k < int_of_dec k')
           then (k, v) # (k', v') # ps
      else (k', v') # define_prop k v ps)"

subsection \<open>ToString, for property keys\<close>

text \<open>
  \<open>Object.fromEntries\<close> turns each key into a property name. A number prints in
  decimal (as JavaScript prints an integer below \<open>10^21\<close>).
\<close>

fun ToString :: "jskey \<Rightarrow> string" where
  "ToString KUndefined = ''undefined''"
| "ToString KNull = ''null''"
| "ToString (KBool b) = (if b then ''true'' else ''false'')"
| "ToString (KNum n) = (if n < 0 then ''-'' @ dec (- n) else dec n)"
| "ToString (KStr s) = s"
| "ToString (KRef a t) = t"

subsection \<open>The Map holding the dataset\<close>

text \<open>
  A \<open>Map\<close> is the list of its entries in insertion order, one entry to a key.
  \<open>set\<close> on a present key replaces the value in place; on an absent key it appends.
  \<open>delete\<close> leaves no entry with the key.
\<close>

type_synonym dataset = "(jskey \<times> jsval) list"

fun Map_has :: "dataset \<Rightarrow> jskey \<Rightarrow> bool" where
  "Map_has [] k = False"
| "Map_has ((k', v') # es) k = (k' = k \<or> Map_has es k)"

fun Map_get :: "dataset \<Rightarrow> jskey \<Rightarrow> jsval" where
  "Map_get [] k = Undefined"
| "Map_get ((k', v') # es) k = (if k' = k then v' else Map_get es k)"

fun Map_set :: "dataset \<Rightarrow> jskey \<Rightarrow> jsval \<Rightarrow> dataset" where
  "Map_set [] k v = [(k, v)]"
| "Map_set ((k', v') # es) k v = (if k' = k then (k, v) # es else (k', v') # Map_set es k v)"

fun Map_delete :: "dataset \<Rightarrow> jskey \<Rightarrow> dataset" where
  "Map_delete [] k = []"
| "Map_delete ((k', v') # es) k =
     (if k' = k then Map_delete es k else (k', v') # Map_delete es k)"

definition Map_keys :: "dataset \<Rightarrow> jskey list" where
  "Map_keys d = map fst d"

definition Map_size :: "dataset \<Rightarrow> nat" where
  "Map_size d = length d"

text \<open>\<open>new Map(entries)\<close>\<close>

definition new_Map :: "(jskey \<times> jsval) list \<Rightarrow> dataset" where
  "new_Map es = foldl (\<lambda>d (k, v). Map_set d k v) [] es"

subsection \<open>The codec\<close>

text \<open>
  The text of the backing file is known by what \<open>JSON.parse\<close> makes of it: the empty
  text, the text of a JSON document, or a text that \<open>JSON.parse\<close> rejects. The members of
  a JSON object are in the order of the text and may repeat a name.
\<close>

datatype json =
    JNull
  | JBool bool
  | JNum int
  | JStr string
  | JArr "json list"
  | JObj "(string \<times> json) list"

datatype filetext = EmptyText | JsonText json | BadText string

datatype error =
    InvalidKey      \<comment> \<open>\<open>Error("Key must be a string.")\<close>\<close>
  | InvalidValue    \<comment> \<open>\<open>Error("Value must be a valid JSON object.")\<close>\<close>
  | KeyExists       \<comment> \<open>\<open>Error("Key already exists.")\<close>\<close>
  | ELOCKED         \<comment> \<open>\<open>lockfile.lock\<close> on a lock that is held\<close>
  | IOFailure       \<comment> \<open>a rejected \<open>fs\<close> call\<close>
  | SyntaxError     \<comment> \<open>thrown by \<open>JSON.parse\<close>\<close>
  | TypeError       \<comment> \<open>thrown by \<open>JSON.stringify\<close>, or a property read on \<open>null\<close>\<close>

fun is_callable :: "jsval \<Rightarrow> bool" where
  "is_callable (Func src) = True"
| "is_callable v = False"

text \<open>Whether \<open>JSON.stringify\<close> throws on a value.\<close>

fun throws :: "jsval \<Rightarrow> bool"
  and throws_list :: "jsval list \<Rightarrow> bool"
  and throws_props :: "(string \<times> jsval) list \<Rightarrow> bool" where
  "throws (BigInt n) = True"
| "throws Cyclic = True"
| "throws (Arr xs) = throws_list xs"
| "throws (Obj kvs) = throws_props kvs"
| "throws Undefined = False"
| "throws Null = False"
| "throws (Bool b) = False"
| "throws (Num n) = False"
| "throws (Str s) = False"
| "throws (Func src) = False"
| "throws_list [] = False"
| "throws_list (x # xs) = (throws x \<or> throws_list xs)"
| "throws_props [] = False"
| "throws_props ((k, v) # kvs) = (throws v \<or> throws_props kvs)"

text \<open>
  The document \<open>JSON.stringify\<close> writes for a value on which it does not throw: in an
  array \<open>undefined\<close> and functions become \<open>null\<close>, in an object their properties are
  left out.
\<close>

fun json_of :: "jsval \<Rightarrow> json"
  and json_of_props :: "(string \<times> jsval) list \<Rightarrow> (string \<times> json) list" where
  "json_of Undefined = JNull"
| "json_of Null = JNull"
| "json_of (Bool b) = JBool b"
| "json_of (Num n) = JNum n"
| "json_of (BigInt n) = JNull"
| "json_of (Str s) = JStr s"
| "json_of (Arr xs) = JArr (map json_of xs)"
| "json_of (Obj kvs) = JObj (json_of_props kvs)"
| "json_of (Func src) = JNull"
| "json_of Cyclic = JNull"
| "json_of_props [] = []"
| "json_of_props ((k, v) # kvs) =
     (if v = Undefined \<or> is_callable v then json_of_props kvs
      else (k, json_of v) # json_of_props kvs)"

text \<open>\<open>JSON.stringify(v)\<close>: \<open>Inr None\<close> is the result \<open>undefined\<close>.\<close>

definition JSON_stringify :: "jsval \<Rightarrow> error + filetext option" where
  "JSON_stringify v =
     (if throws v then Inl TypeError
      else if v = Undefined \<or> is_callable v then Inr None
      else Inr (Some (JsonText (json_of v))))"

text \<open>The value \<open>JSON.parse\<close> builds from a document.\<close>

fun js_of :: "json \<Rightarrow> jsval"
  and js_of_members :: "(string \<times> json) list \<Rightarrow> (string \<times> jsval) list \<Rightarrow> (string \<times> jsval) list" where
  "js_of JNull = Null"
| "js_of (JBool b) = Bool b"
| "js_of (JNum n) = Num n"
| "js_of (JStr s) = Str s"
| "js_of (JArr js) = Arr (map js_of js)"
| "js_of (JObj ms) = Obj (js_of_members ms [])"
| "js_of_members [] ps = ps"
| "js_of_members ((k, j) # ms) ps = js_of_members ms (define_prop k (js_of j) ps)"

fun JSON_parse :: "filetext \<Rightarrow> error + jsval" where
  "JSON_parse EmptyText = Inl SyntaxError"
| "JSON_parse (BadText t) = Inl SyntaxError"
| "JSON_parse (JsonText j) = Inr (js_of j)"

text \<open>\<open>Object.entries(v)\<close>, for the values \<open>JSON.parse\<close> builds.\<close>

fun Object_entries :: "jsval \<Rightarrow> error + (jskey \<times> jsval) list" where
  "Object_entries Undefined = Inl TypeError"
| "Object_entries Null = Inl TypeError"
| "Object_entries (Obj kvs) = Inr (map (\<lambda>(k, v). (KStr k, v)) kvs)"
| "Object_entries (Arr xs) = Inr (map (\<lambda>i. (KStr (dec (int i)), xs ! i)) [0 ..< length xs])"
| "Object_entries (Str s) = Inr (map (\<lambda>i. (KStr (dec (int i)), Str [s ! i])) [0 ..< length s])"
| "Object_entries v = Inr []"

text \<open>\<open>Object.fromEntries(data)\<close>: each key goes through ToString.\<close>

definition Object_fromEntries :: "dataset \<Rightarrow> jsval" where
  "Object_fromEntries d = Obj (foldl (\<lambda>ps (k, v). define_prop (ToString k) v ps) [] d)"

text \<open>\<open>new Map(Object.entries(JSON.parse(text)))\<close>\<close>

definition decode :: "filetext \<Rightarrow> error + dataset" where
  "decode t =
     (case JSON_parse t of
        Inl e \<Rightarrow> Inl e
      | Inr v \<Rightarrow> (case Object_entries v of Inl e \<Rightarrow> Inl e | Inr es \<Rightarrow> Inr (new_Map es)))"

text \<open>\<open>JSON.stringify(Object.fromEntries(data), null, 2)\<close>; the argument is an object,
  for which \<open>JSON.stringify\<close> returns a text or throws.\<close>

definition encode :: "dataset \<Rightarrow> error + filetext" where
  "encode d =
     (if throws (Object_fromEntries d) then Inl TypeError
      else Inr (JsonText (json_of (Object_fromEntries d))))"

text \<open>
  \<open>_isValidJson\<close>: a throw of \<open>JSON.stringify\<close>, and the throw of \<open>JSON.parse(undefined)\<close>,
  end in the \<open>catch\<close>, which answers false.
\<close>

definition isValidJson :: "jsval \<Rightarrow> bool" where
  "isValidJson v =
     (case JSON_stringify v of
        Inl e \<Rightarrow> False
      | Inr None \<Rightarrow> False
      | Inr (Some t) \<Rightarrow> (case JSON_parse t of Inl e \<Rightarrow> False | Inr w \<Rightarrow> True))"

subsection \<open>The store\<close>

datatype listing = Locking | Queued

datatype event = ErrorEvent error | FileChanged nat

text \<open>
  \<open>Map\<close> objects live in \<open>heap\<close> and are named by their index: the cache field and
  the closure of a delayed write hold references, and a \<open>Map\<close> they share is mutated
  in place. \<open>timers\<close> are the delayed writes set up by \<open>setTimeout\<close> and not yet fired,
  each with the \<open>Map\<close> its closure captured; \<open>inflight\<close> is the text a fired timer is
  writing. \<open>lockHeld\<close> says that the lock directory exists; \<open>queue\<close> is the reason the
  promise \<open>this.queue\<close> of the second listing is rejected with, if it is; \<open>unhandled\<close>
  are the rejections of timer callbacks, which nothing awaits. \<open>dbFile\<close> is the text of
  the backing file (\<open>None\<close>: no such file), \<open>written\<close> the texts this store wrote to
  it, oldest first, and \<open>events\<close> what it emitted.
\<close>

record store =
  listing :: listing
  useCache :: bool
  delayedWrite :: int
  dataCache :: "nat option"
  writeScheduled :: bool
  heap :: "dataset list"
  timers :: "nat list"
  inflight :: "filetext option"
  lockHeld :: bool
  queue :: "error option"
  unhandled :: "error list"
  watching :: bool
  dbFile :: "filetext option"
  writable :: bool
  written :: "filetext list"
  events :: "event list"

record options =
  opt_useCache :: "bool option"
  opt_delayedWrite :: "int option"

text \<open>What a method leaves: the store, and the error it rejected with, if it did.\<close>

type_synonym outcome = "error option \<times> store"

definition deref :: "store \<Rightarrow> nat \<Rightarrow> dataset" where
  "deref s r = (if r < length (heap s) then heap s ! r else [])"

definition assign :: "store \<Rightarrow> nat \<Rightarrow> dataset \<Rightarrow> store" where
  "assign s r d = s\<lparr>heap := (heap s)[r := d]\<rparr>"

text \<open>
  \<open>_readFromFile\<close>; \<open>held\<close> says that the caller holds the lock. The first listing asks
  for the lock and has no \<open>catch\<close>; the second has no lock and catches what the decoding
  throws.
\<close>

definition readFromFile :: "store \<Rightarrow> bool \<Rightarrow> error + dataset" where
  "readFromFile s held =
     (case listing s of
        Locking \<Rightarrow>
          if held \<or> lockHeld s then Inl ELOCKED
          else (case dbFile s of None \<Rightarrow> Inl IOFailure | Some t \<Rightarrow> decode t)
      | Queued \<Rightarrow>
          (case dbFile s of
             None \<Rightarrow> Inl IOFailure
           | Some t \<Rightarrow> (case decode t of Inl e \<Rightarrow> Inr [] | Inr d \<Rightarrow> Inr d)))"

text \<open>\<open>fs.writeFile\<close> has written the text.\<close>

definition file_written :: "store \<Rightarrow> filetext \<Rightarrow> store" where
  "file_written s t = s\<lparr>dbFile := Some t, written := written s @ [t]\<rparr>"

text \<open>
  \<open>await this._writeToFile(data)\<close> in a method. The first listing asks for the lock,
  then evaluates \<open>JSON.stringify\<close>, then writes. The second chains the write to
  \<open>this.queue\<close>: once that promise is rejected, the callback of \<open>then\<close> is not run any
  more and every later \<open>await this.queue\<close> rejects with the first reason.
\<close>

definition writeToFile :: "store \<Rightarrow> nat \<Rightarrow> bool \<Rightarrow> outcome" where
  "writeToFile s r held =
     (case listing s of
        Locking \<Rightarrow>
          if held \<or> lockHeld s then (Some ELOCKED, s)
          else (case encode (deref s r) of
                  Inl e \<Rightarrow> (Some e, s)
                | Inr t \<Rightarrow> if writable s then (None, file_written s t) else (Some IOFailure, s))
      | Queued \<Rightarrow>
          (case queue s of
             Some e \<Rightarrow> (Some e, s)
           | None \<Rightarrow>
               (case encode (deref s r) of
                  Inl e \<Rightarrow> (Some e, s\<lparr>queue := Some e\<rparr>)
                | Inr t \<Rightarrow>
                    if writable s then (None, file_written s t)
                    else (Some IOFailure, s\<lparr>queue := Some IOFailure\<rparr>))))"

text \<open>\<open>await this._flushDataIfNeeded(data)\<close> in a method.\<close>

definition flushDataIfNeeded :: "store \<Rightarrow> nat \<Rightarrow> bool \<Rightarrow> outcome" where
  "flushDataIfNeeded s r held =
     (if Map_size (deref s r) > 0 then
        if delayedWrite s > 0 then
          if \<not> writeScheduled s
            then (None, s\<lparr>writeScheduled := True, timers := timers s @ [r]\<rparr>)
          else (None, s)
        else writeToFile s r held
      else (None, s))"

text \<open>
  The callback handed to \<open>setTimeout\<close>, for the oldest timer, up to the call of
  \<open>fs.writeFile\<close>: the lock is taken (first listing) or the queue is consulted (second
  listing), and \<open>JSON.stringify\<close> fixes the text. A rejection ends the callback; then
  \<open>this.writeScheduled = false\<close> is not reached.
\<close>

definition timer_fire :: "store \<Rightarrow> store" where
  "timer_fire s =
     (case timers s of
        [] \<Rightarrow> s
      | r # rest \<Rightarrow>
          (case listing s of
             Locking \<Rightarrow>
               if lockHeld s then s\<lparr>timers := rest, unhandled := unhandled s @ [ELOCKED]\<rparr>
               else (case encode (deref s r) of
                       Inl e \<Rightarrow> s\<lparr>timers := rest, unhandled := unhandled s @ [e]\<rparr>
                     | Inr t \<Rightarrow> s\<lparr>timers := rest, lockHeld := True, inflight := Some t\<rparr>)
           | Queued \<Rightarrow>
               (case queue s of
                  Some e \<Rightarrow> s\<lparr>timers := rest, unhandled := unhandled s @ [e]\<rparr>
                | None \<Rightarrow>
                    (case encode (deref s r) of
                       Inl e \<Rightarrow>
                         s\<lparr>timers := rest, queue := Some e, unhandled := unhandled s @ [e]\<rparr>
                     | Inr t \<Rightarrow> s\<lparr>timers := rest, inflight := Some t\<rparr>))))"

text \<open>
  The rest of the callback: \<open>fs.writeFile\<close> ends, the first listing releases the lock,
  and after a write that succeeded \<open>this.writeScheduled = false\<close>.
\<close>

definition timer_done :: "store \<Rightarrow> store" where
  "timer_done s =
     (case inflight s of
        None \<Rightarrow> s
      | Some t \<Rightarrow>
          (let s1 = s\<lparr>inflight := None,
                      lockHeld := (if listing s = Locking then False else lockHeld s)\<rparr>
           in if writable s then (file_written s1 t)\<lparr>writeScheduled := False\<rparr>
              else s1\<lparr>queue := (if listing s = Queued then Some IOFailure else queue s),
                      unhandled := unhandled s @ [IOFailure]\<rparr>))"

text \<open>
  \<open>this.useCache ? this.dataCache : await this._readFromFile()\<close>, for a method that
  keeps the \<open>Map\<close>: a \<open>Map\<close> read from the file is a new object.
\<close>

definition obtain_data :: "store \<Rightarrow> bool \<Rightarrow> error + (nat \<times> store)" where
  "obtain_data s held =
     (if useCache s then
        (case dataCache s of None \<Rightarrow> Inl TypeError | Some r \<Rightarrow> Inr (r, s))
      else
        (case readFromFile s held of
           Inl e \<Rightarrow> Inl e
         | Inr d \<Rightarrow> Inr (length (heap s), s\<lparr>heap := heap s @ [d]\<rparr>)))"

text \<open>The same expression, for a method that only reads the \<open>Map\<close> and holds no lock.\<close>

definition current_data :: "store \<Rightarrow> error + dataset" where
  "current_data s =
     (if useCache s then
        (case dataCache s of None \<Rightarrow> Inl TypeError | Some r \<Rightarrow> Inr (deref s r))
      else readFromFile s False)"

definition keep_cache :: "store \<Rightarrow> nat \<Rightarrow> store" where
  "keep_cache s r = (if useCache s then s\<lparr>dataCache := Some r\<rparr> else s)"

text \<open>
  \<open>lockfile.lock\<close> at the head of \<open>create\<close>, \<open>delete\<close> and \<open>batchWrite\<close> of the first
  listing: \<open>lock_refused\<close> when it rejects, \<open>under_lock\<close> when the body then runs with the
  lock held. The \<open>finally\<close> releases the lock on every way out.
\<close>

definition lock_refused :: "store \<Rightarrow> bool" where
  "lock_refused s = (listing s = Locking \<and> lockHeld s)"

definition under_lock :: "store \<Rightarrow> bool" where
  "under_lock s = (listing s = Locking)"

text \<open>A rejected method leaves the store as it has made it by then.\<close>

definition create :: "store \<Rightarrow> jskey \<Rightarrow> jsval \<Rightarrow> bool \<Rightarrow> outcome" where
  "create s key val overwrite =
     (if \<not> is_string key then (Some InvalidKey, s)
      else if \<not> isValidJson val then (Some InvalidValue, s)
      else if lock_refused s then (Some ELOCKED, s)
      else
        (case obtain_data s (under_lock s) of
           Inl e \<Rightarrow> (Some e, s)
         | Inr (r, s1) \<Rightarrow>
             if \<not> overwrite \<and> Map_has (deref s1 r) key then (Some KeyExists, s)
             else flushDataIfNeeded
                    (keep_cache (assign s1 r (Map_set (deref s1 r) key val)) r) r
                    (under_lock s)))"

definition read :: "store \<Rightarrow> jskey \<Rightarrow> error + jsval" where
  "read s key =
     (if \<not> is_string key then Inl InvalidKey
      else
        (case current_data s of
           Inl e \<Rightarrow> Inl e
         | Inr d \<Rightarrow> Inr (js_or (Map_get d key) Null)))"

definition update :: "store \<Rightarrow> jskey \<Rightarrow> jsval \<Rightarrow> outcome" where
  "update s key val = create s key val True"

definition delete :: "store \<Rightarrow> jskey \<Rightarrow> outcome" where
  "delete s key =
     (if \<not> is_string key then (Some InvalidKey, s)
      else if lock_refused s then (Some ELOCKED, s)
      else
        (case obtain_data s (under_lock s) of
           Inl e \<Rightarrow> (Some e, s)
         | Inr (r, s1) \<Rightarrow>
             flushDataIfNeeded
               (keep_cache (assign s1 r (Map_delete (deref s1 r) key)) r) r (under_lock s)))"

text \<open>One element of the argument of \<open>batchWrite\<close>; a value it lacks is \<open>Undefined\<close>.\<close>

record operation =
  op_key :: jskey
  op_value :: jsval
  op_action :: jsval

definition apply_operation :: "dataset \<Rightarrow> operation \<Rightarrow> dataset" where
  "apply_operation d op =
     (if op_action op = Str ''create'' \<or> op_action op = Str ''update''
        then Map_set d (op_key op) (op_value op)
      else if op_action op = Str ''delete'' then Map_delete d (op_key op)
      else d)"

definition batchWrite :: "store \<Rightarrow> operation list \<Rightarrow> outcome" where
  "batchWrite s ops =
     (if lock_refused s then (Some ELOCKED, s)
      else
        (case obtain_data s (under_lock s) of
           Inl e \<Rightarrow> (Some e, s)
         | Inr (r, s1) \<Rightarrow>
             flushDataIfNeeded
               (keep_cache (assign s1 r (foldl apply_operation (deref s1 r) ops)) r) r
               (under_lock s)))"

text \<open>\<open>Array.prototype.slice(start, end)\<close>: a negative bound counts from the end.\<close>

definition slice :: "'a list \<Rightarrow> int \<Rightarrow> int \<Rightarrow> 'a list" where
  "slice xs start fin =
     (let len = int (length xs);
          k = (if start < 0 then max (len + start) 0 else min start len);
          final = (if fin < 0 then max (len + fin) 0 else min fin len)
      in take (nat (final - k)) (drop (nat k) xs))"

text \<open>\<open>readPage({ pageNumber = 1, pageSize = 10 })\<close>; \<open>None\<close> is a property left out.\<close>

definition page_keys :: "dataset \<Rightarrow> int \<Rightarrow> int \<Rightarrow> jskey list" where
  "page_keys d pageNumber pageSize =
     slice (Map_keys d) ((pageNumber - 1) * pageSize) (pageNumber * pageSize)"

definition page_data :: "dataset \<Rightarrow> jskey list \<Rightarrow> dataset" where
  "page_data d ks = foldl (\<lambda>m k. Map_set m k (Map_get d k)) [] ks"

definition readPage :: "store \<Rightarrow> int option \<Rightarrow> int option \<Rightarrow> error + jsval" where
  "readPage s pageNumber pageSize =
     (let pn = (case pageNumber of None \<Rightarrow> 1 | Some n \<Rightarrow> n);
          ps = (case pageSize of None \<Rightarrow> 10 | Some n \<Rightarrow> n)
      in case current_data s of
           Inl e \<Rightarrow> Inl e
         | Inr d \<Rightarrow> Inr (Object_fromEntries (page_data d (page_keys d pn ps))))"

text \<open>
  The listener of \<open>fs.watchFile\<close>; \<open>changed\<close> is \<open>curr.mtimeMs !== prev.mtimeMs\<close>.
\<close>

definition watch_callback :: "store \<Rightarrow> bool \<Rightarrow> store" where
  "watch_callback s changed =
     (if changed then
        (case readFromFile s False of
           Inr d \<Rightarrow>
             s\<lparr>heap := heap s @ [d], dataCache := Some (length (heap s)),
               events := events s @ [FileChanged (length (heap s))]\<rparr>
         | Inl e \<Rightarrow> s\<lparr>events := events s @ [ErrorEvent e]\<rparr>)
      else s)"

text \<open>\<open>_initialize\<close>; \<open>data || "{}"\<close> reads an empty file as \<open>{}\<close>.\<close>

definition initialize :: "store \<Rightarrow> store" where
  "initialize s =
     (case dbFile s of
        None \<Rightarrow>
          if writable s then
            (file_written s (JsonText (JObj [])))
              \<lparr>heap := heap s @ [[]], dataCache := Some (length (heap s)), watching := True\<rparr>
          else s\<lparr>events := events s @ [ErrorEvent IOFailure]\<rparr>
      | Some t \<Rightarrow>
          if useCache s then
            (case decode (if t = EmptyText then JsonText (JObj []) else t) of
               Inl e \<Rightarrow> s\<lparr>events := events s @ [ErrorEvent e]\<rparr>
             | Inr d \<Rightarrow>
                 s\<lparr>heap := heap s @ [d], dataCache := Some (length (heap s)),
                   watching := True\<rparr>)
          else s\<lparr>watching := True\<rparr>)"

text \<open>
  The constructor, with \<open>_initialize\<close> run to its end, on a file that can be written
  and a lock that is free.
\<close>

definition SimpleDB :: "listing \<Rightarrow> options \<Rightarrow> filetext option \<Rightarrow> store" where
  "SimpleDB l opts f =
     (let uc = (case opt_useCache opts of None \<Rightarrow> True | Some b \<Rightarrow> b);
          dw = (case opt_delayedWrite opts of None \<Rightarrow> 0 | Some d \<Rightarrow> d)
      in initialize
           \<lparr>listing = l, useCache = uc, delayedWrite = dw,
            dataCache = (if uc then Some 0 else None), writeScheduled = False,
            heap = (if uc then [[]] else []), timers = [], inflight = None,
            lockHeld = False, queue = None, unhandled = [], watching = False,
            dbFile = f, writable = True, written = [], events = []\<rparr>)"

text \<open>Another process replaces the backing file, or removes it.\<close>

definition external_write :: "store \<Rightarrow> filetext option \<Rightarrow> store" where
  "external_write s f = s\<lparr>dbFile := f\<rparr>"

subsection \<open>Clients and reachable stores\<close>

text \<open>The four mutating methods, as a client calls them.\<close>

datatype call =
    Create jskey jsval bool
  | Update jskey jsval
  | Delete jskey
  | BatchWrite "operation list"

fun mutate :: "store \<Rightarrow> call \<Rightarrow> outcome" where
  "mutate s (Create key val overwrite) = create s key val overwrite"
| "mutate s (Update key val) = update s key val"
| "mutate s (Delete key) = delete s key"
| "mutate s (BatchWrite ops) = batchWrite s ops"

text \<open>
  What can happen to a store: a call of a mutating method; the oldest delayed write
  fires; the write of a fired timer ends; the watcher's listener runs (it is registered
  once the store is watching); another process replaces or removes the backing file,
  takes or releases the lock (it cannot release it while this store's write holds
  it), or the file becomes writable or not.
\<close>

datatype step =
    Call call
  | Timer
  | TimerDone
  | Watch bool
  | External "filetext option"
  | OtherLock bool
  | Writable bool

fun exec :: "store \<Rightarrow> step \<Rightarrow> outcome" where
  "exec s (Call c) = mutate s c"
| "exec s Timer = (None, timer_fire s)"
| "exec s TimerDone = (None, timer_done s)"
| "exec s (Watch changed) = (None, if watching s then watch_callback s changed else s)"
| "exec s (External f) = (None, external_write s f)"
| "exec s (OtherLock b) =
     (None, if listing s = Locking \<and> inflight s \<noteq> None then s else s\<lparr>lockHeld := b\<rparr>)"
| "exec s (Writable b) = (None, s\<lparr>writable := b\<rparr>)"

text \<open>The store after a sequence of steps, rejected calls among them.\<close>

fun after :: "store \<Rightarrow> step list \<Rightarrow> store" where
  "after s [] = s"
| "after s (x # xs) = after (snd (exec s x)) xs"

text \<open>A sequence of steps in which every call is awaited; a rejected call ends it.\<close>

fun run :: "store \<Rightarrow> step list \<Rightarrow> error + store" where
  "run s [] = Inr s"
| "run s (x # xs) = (case exec s x of (Some e, s') \<Rightarrow> Inl e | (None, s') \<Rightarrow> run s' xs)"

text \<open>\<open>await op; return await db.read(key)\<close>\<close>

definition then_read :: "outcome \<Rightarrow> jskey \<Rightarrow> error + jsval" where
  "then_read res key = (case res of (Some e, s) \<Rightarrow> Inl e | (None, s) \<Rightarrow> read s key)"

abbreviation opts :: "bool option \<Rightarrow> int option \<Rightarrow> options" where
  "opts uc dw \<equiv> \<lparr>opt_useCache = uc, opt_delayedWrite = dw\<rparr>"

text \<open>The stores a program can be in: a constructed store, then any steps.\<close>

inductive reachable :: "store \<Rightarrow> bool" where
  constructed: "reachable (SimpleDB l os f)"
| step: "reachable s \<Longrightarrow> reachable (snd (exec s x))"

subsection \<open>Notions of the specification\<close>

text \<open>A dataset without a value on which \<open>JSON.stringify\<close> throws.\<close>

definition storable :: "dataset \<Rightarrow> bool" where
  "storable d = (\<forall>p \<in> set d. \<not> throws (snd p))"

text \<open>
  A delayed write is pending on the cached \<open>Map\<close> \<open>r\<close>: its timer is set up and has not
  fired.
\<close>

definition flush_pending :: "store \<Rightarrow> nat \<Rightarrow> bool" where
  "flush_pending s r =
     (useCache s \<and> delayedWrite s > 0 \<and> writeScheduled s \<and> timers s = [r]
      \<and> inflight s = None \<and> dataCache s = Some r \<and> r < length (heap s))"

text \<open>The cache field and the timers name \<open>Map\<close> objects that exist.\<close>

definition refs_ok :: "store \<Rightarrow> bool" where
  "refs_ok s =
     ((useCache s \<longrightarrow> (case dataCache s of None \<Rightarrow> False | Some r \<Rightarrow> r < length (heap s)))
      \<and> list_all (\<lambda>r. r < length (heap s)) (timers s))"

text \<open>How the pending marker, the timers and the write of a fired timer go together.\<close>

definition flush_inv :: "store \<Rightarrow> bool" where
  "flush_inv s =
     (length (timers s) \<le> 1
      \<and> (timers s \<noteq> [] \<longrightarrow> writeScheduled s \<and> inflight s = None)
      \<and> (inflight s \<noteq> None \<longrightarrow> writeScheduled s)
      \<and> (writeScheduled s \<and> unhandled s = [] \<longrightarrow> timers s \<noteq> [] \<or> inflight s \<noteq> None)
      \<and> (inflight s \<noteq> None \<and> listing s = Locking \<longrightarrow> lockHeld s)
      \<and> (delayedWrite s \<le> 0 \<longrightarrow> \<not> writeScheduled s))"

text \<open>The queue of the second listing is rejected, if at all, by a failed write.\<close>

definition queue_ok :: "store \<Rightarrow> bool" where
  "queue_ok s = (queue s = None \<or> queue s = Some TypeError \<or> queue s = Some IOFailure)"

section \<open>Properties\<close>

subsection \<open>Maps\<close>

lemma Map_get_set: "Map_get (Map_set d k v) k = v"
  by (induction d) auto

lemma Map_get_set_other: "k' \<noteq> k \<Longrightarrow> Map_get (Map_set d k v) k' = Map_get d k'"
  by (induction d) auto

lemma Map_get_delete: "Map_get (Map_delete d k) k = Undefined"
  by (induction d) auto

lemma Map_get_delete_other: "k' \<noteq> k \<Longrightarrow> Map_get (Map_delete d k) k' = Map_get d k'"
  by (induction d) auto


lemma Map_has_delete: "Map_has (Map_delete d k) k' = (k' \<noteq> k \<and> Map_has d k')"
  by (induction d) (auto split: if_splits)

lemma Map_has_keys: "Map_has d k = (k \<in> set (Map_keys d))"
  by (induction d) (auto simp: Map_keys_def)

lemma Map_keys_set:
  "Map_keys (Map_set d k v) = (if Map_has d k then Map_keys d else Map_keys d @ [k])"
  by (induction d) (auto simp: Map_keys_def)

lemma Map_keys_delete: "Map_keys (Map_delete d k) = filter (\<lambda>k'. k' \<noteq> k) (Map_keys d)"
  by (induction d) (auto simp: Map_keys_def)

lemma distinct_Map_set: "distinct (Map_keys d) \<Longrightarrow> distinct (Map_keys (Map_set d k v))"
  by (simp add: Map_keys_set Map_has_keys)

lemma distinct_Map_delete: "distinct (Map_keys d) \<Longrightarrow> distinct (Map_keys (Map_delete d k))"
  by (simp add: Map_keys_delete)

lemma Map_delete_absent: "\<not> Map_has d k \<Longrightarrow> Map_delete d k = d"
  by (induction d) auto

lemma Map_size_set_pos: "Map_size (Map_set d k v) > 0"
  by (cases d) (auto simp: Map_size_def split: if_splits)

lemma Map_set_absent: "\<not> Map_has d k \<Longrightarrow> Map_set d k v = d @ [(k, v)]"
  by (induction d) auto

lemma Map_get_distinct:
  "distinct (map fst d) \<Longrightarrow> (k, v) \<in> set d \<Longrightarrow> Map_get d k = v"
  by (induction d) (auto simp: rev_image_eqI)

lemma Map_get_absent: "\<not> Map_has d k \<Longrightarrow> Map_get d k = Undefined"
  by (induction d) auto

lemma Map_set_member: "(k, v) \<in> set (Map_set d k v)"
  by (induction d) auto

lemma set_Map_set: "set (Map_set d k v) \<subseteq> insert (k, v) (set d)"
  by (induction d) (auto split: if_splits)

lemma set_Map_delete: "set (Map_delete d k) \<subseteq> set d"
  by (induction d) (auto split: if_splits)


subsection \<open>Slices and pages of a Map\<close>

lemma slice_nonneg:
  assumes "0 \<le> a" and "0 \<le> n"
  shows "slice xs a (a + n) = take (nat n) (drop (nat a) xs)"
proof (cases "a \<le> int (length xs)")
  case True
  let ?ys = "drop (nat a) xs"
  have len: "length ?ys = length xs - nat a" by simp
  have "slice xs a (a + n) = take (nat (min (a + n) (int (length xs)) - a)) ?ys"
    using assms True by (simp add: slice_def Let_def min_def)
  also have "\<dots> = take (nat n) ?ys"
  proof (cases "a + n \<le> int (length xs)")
    case True
    then show ?thesis by (simp add: min_def)
  next
    case False
    with \<open>a \<le> int (length xs)\<close> assms
    have "length ?ys \<le> nat (min (a + n) (int (length xs)) - a)" "length ?ys \<le> nat n"
      by (simp_all add: min_def)
    then show ?thesis by simp
  qed
  finally show ?thesis .
next
  case False
  with assms show ?thesis by (simp add: slice_def Let_def min_def)
qed

lemma slice_page_zero:
  assumes "0 \<le> n"
  shows "slice xs (- n) 0 = []"
  using assms by (simp add: slice_def Let_def min_def max_def)

lemma page_data_aux:
  assumes "distinct (map fst acc @ map fst es)" and "\<forall>(k, v) \<in> set es. Map_get d k = v"
  shows "foldl (\<lambda>m k. Map_set m k (Map_get d k)) acc (map fst es) = acc @ es"
  using assms
proof (induction es arbitrary: acc)
  case Nil
  then show ?case by simp
next
  case (Cons e es)
  obtain k v where e: "e = (k, v)" by (cases e)
  from Cons.prems e have g: "Map_get d k = v" and absent: "\<not> Map_has acc k"
    by (auto simp: Map_has_keys Map_keys_def)
  from Cons.prems e have "distinct (map fst (acc @ [(k, v)]) @ map fst es)"
    and "\<forall>(k, v) \<in> set es. Map_get d k = v"
    by auto
  from Cons.IH [OF this] g absent e show ?case
    by (simp add: Map_set_absent)
qed

lemma page_data_sublist:
  assumes "distinct (Map_keys d)"
  shows "page_data d (take n (drop m (Map_keys d))) = take n (drop m d)"
proof -
  let ?es = "take n (drop m d)"
  have k: "take n (drop m (Map_keys d)) = map fst ?es"
    by (simp add: Map_keys_def take_map drop_map)
  have sub: "set ?es \<subseteq> set d"
    by (meson in_set_dropD in_set_takeD subsetI)
  have "distinct (map fst ?es)"
    using assms unfolding Map_keys_def
    by (simp add: take_map [symmetric] drop_map [symmetric] distinct_take distinct_drop)
  moreover have "\<forall>(k, v) \<in> set ?es. Map_get d k = v"
    using assms sub by (auto simp: Map_keys_def intro: Map_get_distinct)
  ultimately have "foldl (\<lambda>m k. Map_set m k (Map_get d k)) [] (map fst ?es) = [] @ ?es"
    by (intro page_data_aux) simp_all
  with k show ?thesis by (simp add: page_data_def)
qed


lemma define_prop_absent:
  assumes "k \<notin> fst ` set ps"
  shows "set (define_prop k v ps) = insert (k, v) (set ps)"
    and "fst ` set (define_prop k v ps) = insert k (fst ` set ps)"
    and "distinct (map fst ps) \<Longrightarrow> distinct (map fst (define_prop k v ps))"
  using assms by (induction ps) (auto split: if_splits)

lemma define_prop_plain:
  assumes "k \<notin> fst ` set ps" and "\<not> is_array_index k"
  shows "define_prop k v ps = ps @ [(k, v)]"
  using assms by (induction ps) auto

lemma fold_define_set:
  assumes "distinct (map fst acc @ map fst ps)"
  shows "set (foldl (\<lambda>a (k, v). define_prop k v a) acc ps) = set acc \<union> set ps
       \<and> distinct (map fst (foldl (\<lambda>a (k, v). define_prop k v a) acc ps))"
  using assms
proof (induction ps arbitrary: acc)
  case Nil
  then show ?case by simp
next
  case (Cons p ps)
  obtain k v where p: "p = (k, v)" by (cases p)
  with Cons.prems have absent: "k \<notin> fst ` set acc" and dacc: "distinct (map fst acc)"
    by auto
  note dp = define_prop_absent [OF absent, of v]
  from Cons.prems p have "distinct (map fst (define_prop k v acc) @ map fst ps)"
    using dp(2) dp(3) [OF dacc] by auto
  from Cons.IH [OF this] p dp(1) show ?case by auto
qed

lemma fold_define_plain:
  assumes "distinct (map fst acc @ map fst ps)" and "\<forall>k \<in> fst ` set ps. \<not> is_array_index k"
  shows "foldl (\<lambda>a (k, v). define_prop k v a) acc ps = acc @ ps"
  using assms
proof (induction ps arbitrary: acc)
  case Nil
  then show ?case by simp
next
  case (Cons p ps)
  obtain k v where p: "p = (k, v)" by (cases p)
  with Cons.prems have "define_prop k v acc = acc @ [(k, v)]"
    by (intro define_prop_plain) auto
  moreover from Cons.prems p have "distinct (map fst (acc @ [(k, v)]) @ map fst ps)"
    and "\<forall>k \<in> fst ` set ps. \<not> is_array_index k"
    by auto
  ultimately show ?case using Cons.IH [of "acc @ [(k, v)]"] p by simp
qed

lemma fromEntries_fold:
  "Object_fromEntries es
   = Obj (foldl (\<lambda>a (k, v). define_prop k v a) [] (map (\<lambda>(k, v). (ToString k, v)) es))"
proof -
  have "foldl (\<lambda>ps (k, v). define_prop (ToString k) v ps) acc es
      = foldl (\<lambda>a (k, v). define_prop k v a) acc (map (\<lambda>(k, v). (ToString k, v)) es)" for acc
    by (induction es arbitrary: acc) (auto split: prod.splits)
  then show ?thesis by (simp add: Object_fromEntries_def)
qed

lemma string_keys_distinct:
  assumes "distinct (map fst es)" and "\<forall>k \<in> fst ` set es. is_string k"
  shows "distinct (map fst (map (\<lambda>(k, v). (ToString k, v)) es))"
proof -
  have inj: "inj_on ToString (fst ` set es)"
  proof (rule inj_onI)
    fix x y assume "x \<in> fst ` set es" "y \<in> fst ` set es" "ToString x = ToString y"
    with assms(2) have "is_string x" "is_string y" by auto
    with \<open>ToString x = ToString y\<close> show "x = y"
      by (cases x; cases y) simp_all
  qed
  have m: "map fst (map (\<lambda>(k, v). (ToString k, v)) es) = map ToString (map fst es)"
    by (induction es) auto
  from assms(1) inj have "distinct (map ToString (map fst es))"
    by (subst distinct_map) simp
  then show ?thesis by (simp only: m)
qed



subsection \<open>The codec, there and back\<close>

lemma map_of_define_prop: "map_of (define_prop k v ps) = (map_of ps)(k \<mapsto> v)"
proof (induction ps)
  case Nil
  show ?case by simp
next
  case (Cons p ps)
  obtain k' v' where p: "p = (k', v')" by (cases p)
  with Cons.IH show ?case by (auto simp: fun_eq_iff)
qed

lemma keys_define_prop:
  "set (map fst (define_prop k v ps)) = insert k (set (map fst ps))"
proof -
  have "set (map fst (define_prop k v ps)) = dom (map_of (define_prop k v ps))"
    by (simp add: dom_map_of_conv_image_fst)
  also have "\<dots> = insert k (dom (map_of ps))"
    by (simp only: map_of_define_prop dom_fun_upd) simp
  finally show ?thesis by (simp add: dom_map_of_conv_image_fst)
qed

lemma distinct_define_prop:
  "distinct (map fst ps) \<Longrightarrow> distinct (map fst (define_prop k v ps))"
proof (induction ps)
  case Nil
  show ?case by simp
next
  case (Cons p ps)
  obtain k' v' where p: "p = (k', v')" by (cases p)
  from Cons p have d: "k' \<notin> set (map fst ps)" "distinct (map fst ps)"
    and ih: "distinct (map fst (define_prop k v ps))"
    by auto
  show ?case
  proof (cases "k' = k")
    case True
    with p d show ?thesis by simp
  next
    case False
    with p d ih keys_define_prop [of k v ps] show ?thesis by auto
  qed
qed

lemma fold_define_props:
  assumes "distinct (map fst acc)"
  shows "map_of (foldl (\<lambda>a (k, v). define_prop k v a) acc ps) = map_of acc ++ map_of (rev ps)
       \<and> distinct (map fst (foldl (\<lambda>a (k, v). define_prop k v a) acc ps))"
  using assms
proof (induction ps arbitrary: acc)
  case Nil
  then show ?case by simp
next
  case (Cons p ps)
  obtain k v where p: "p = (k, v)" by (cases p)
  let ?f = "\<lambda>a (k, v). define_prop k v a"
  from Cons.prems have "distinct (map fst (define_prop k v acc))"
    by (rule distinct_define_prop)
  from Cons.IH [OF this]
  have m: "map_of (foldl ?f (define_prop k v acc) ps)
             = map_of (define_prop k v acc) ++ map_of (rev ps)"
    and d: "distinct (map fst (foldl ?f (define_prop k v acc) ps))"
    by blast+
  have "map_of (define_prop k v acc) ++ map_of (rev ps)
      = map_of acc ++ map_of (rev ((k, v) # ps))"
    by (simp only: map_of_define_prop) (simp add: map_add_assoc [symmetric])
  with m d p show ?case by simp
qed


lemma map_of_rev_distinct:
  assumes "distinct (map fst xs)"
  shows "map_of (rev xs) = map_of xs"
proof -
  from assms have "distinct (map fst (rev xs))"
    by (simp add: rev_map [symmetric])
  with assms show ?thesis
    by (subst map_of_inject_set) simp_all
qed

lemma json_of_props_lookup:
  assumes "map_of ps k = Some v" and "v \<noteq> Undefined" and "\<not> is_callable v"
  shows "map_of (json_of_props ps) k = Some (json_of v)"
  using assms by (induction ps) (auto split: if_splits)

lemma json_of_props_keys: "set (map fst (json_of_props ps)) \<subseteq> set (map fst ps)"
proof (induction ps)
  case Nil
  show ?case by simp
next
  case (Cons p ps)
  obtain k v where p: "p = (k, v)" by (cases p)
  have "set (map fst (json_of_props (p # ps)))
        \<subseteq> insert k (set (map fst (json_of_props ps)))"
    unfolding p by (cases "v = Undefined \<or> is_callable v") auto
  also have "\<dots> \<subseteq> insert k (set (map fst ps))"
    using Cons.IH by blast
  finally show ?case using p by simp
qed

lemma json_of_props_distinct:
  "distinct (map fst ps) \<Longrightarrow> distinct (map fst (json_of_props ps))"
proof (induction ps)
  case Nil
  show ?case by simp
next
  case (Cons p ps)
  obtain k v where p: "p = (k, v)" by (cases p)
  from Cons p have "k \<notin> set (map fst ps)" "distinct (map fst (json_of_props ps))"
    by simp_all
  with json_of_props_keys [of ps] have "k \<notin> set (map fst (json_of_props ps))"
    by blast
  with \<open>distinct (map fst (json_of_props ps))\<close> p show ?case by simp
qed

lemma js_of_members_fold:
  "js_of_members ms acc
   = foldl (\<lambda>a (k, v). define_prop k v a) acc (map (\<lambda>(k, j). (k, js_of j)) ms)"
  by (induction ms arbitrary: acc) auto

lemma Map_get_fold_set:
  "Map_get (foldl (\<lambda>d (k, v). Map_set d k v) acc es) key
   = (case map_of (rev es) key of None \<Rightarrow> Map_get acc key | Some v \<Rightarrow> v)"
proof (induction es arbitrary: acc)
  case Nil
  show ?case by simp
next
  case (Cons e es)
  obtain k v where e: "e = (k, v)" by (cases e)
  show ?case
    using Cons.IH [of "Map_set acc k v"] e
    by (cases "key = k")
       (auto simp: Map_get_set Map_get_set_other map_add_def split: option.splits)
qed

lemma map_of_KStr_keys:
  "map_of (map (\<lambda>(k, v). (KStr k, v)) xs) (KStr k) = map_of xs k"
  by (induction xs) auto



lemma throws_props_iff: "throws_props ps = (\<exists>p \<in> set ps. throws (snd p))"
  by (induction ps) auto

lemma throws_list_iff: "throws_list xs = (\<exists>x \<in> set xs. throws x)"
  by (induction xs) auto

lemma set_define_prop: "set (define_prop k v ps) \<subseteq> insert (k, v) (set ps)"
  by (induction ps) (auto split: if_splits)

lemma throws_define_prop:
  "\<not> throws v \<Longrightarrow> \<not> throws_props ps \<Longrightarrow> \<not> throws_props (define_prop k v ps)"
  using set_define_prop [of k v ps] by (fastforce simp: throws_props_iff)

lemma js_of_no_throw:
  "\<not> throws (js_of j)"
  "\<not> throws_props acc \<Longrightarrow> \<not> throws_props (js_of_members ms acc)"
  by (induction j and ms acc rule: js_of_js_of_members.induct)
     (simp_all add: throws_list_iff throws_define_prop)


lemma storable_Nil: "storable []"
  by (simp add: storable_def)


lemma storable_Map_delete: "storable d \<Longrightarrow> storable (Map_delete d k)"
  using set_Map_delete [of d k] by (fastforce simp: storable_def)

lemma storable_fold_props:
  "storable d \<Longrightarrow> \<not> throws_props acc \<Longrightarrow>
   \<not> throws_props (foldl (\<lambda>ps (k, v). define_prop (ToString k) v ps) acc d)"
proof (induction d arbitrary: acc)
  case Nil
  then show ?case by simp
next
  case (Cons e d)
  obtain k v where e: "e = (k, v)" by (cases e)
  from Cons.prems e have "storable d" "\<not> throws v" by (simp_all add: storable_def)
  with Cons.prems(2) Cons.IH [of "define_prop (ToString k) v acc"] e show ?case
    by (simp add: throws_define_prop)
qed

lemma encode_storable:
  "storable d \<Longrightarrow> encode d = Inr (JsonText (json_of (Object_fromEntries d)))"
  using storable_fold_props [of d "[]"] by (simp add: encode_def Object_fromEntries_def)

lemma encode_Inr:
  "encode d = Inr t \<Longrightarrow> t = JsonText (json_of (Object_fromEntries d))"
  by (simp add: encode_def split: if_splits)

lemma set_new_Map: "set (new_Map es) \<subseteq> set es"
proof -
  have "set (foldl (\<lambda>d (k, v). Map_set d k v) acc es) \<subseteq> set acc \<union> set es" for acc
  proof (induction es arbitrary: acc)
    case Nil
    show ?case by simp
  next
    case (Cons e es)
    obtain k v where e: "e = (k, v)" by (cases e)
    from Cons.IH [of "Map_set acc k v"] set_Map_set [of acc k v] e show ?case by auto
  qed
  from this [of "[]"] show ?thesis by (simp add: new_Map_def)
qed

lemma Object_entries_storable:
  assumes "Object_entries (js_of j) = Inr es"
  shows "storable es"
proof (cases j)
  case (JObj ms)
  have "\<not> throws_props (js_of_members ms [])" by (simp add: js_of_no_throw)
  with assms JObj show ?thesis by (fastforce simp: storable_def throws_props_iff)
next
  case (JArr js)
  with assms js_of_no_throw(1) show ?thesis by (auto simp: storable_def)
qed (use assms in \<open>auto simp: storable_def\<close>)

lemma decode_storable:
  assumes "decode t = Inr d"
  shows "storable d"
proof -
  from assms obtain j es where "Object_entries (js_of j) = Inr es" and d: "d = new_Map es"
    by (cases t) (auto simp: decode_def split: sum.splits)
  then have "storable es" by (simp add: Object_entries_storable)
  with set_new_Map [of es] d show ?thesis by (auto simp: storable_def)
qed

lemma json_of_props_map_of:
  assumes "distinct (map fst ps)"
  shows "map_of (json_of_props ps) k
         = (case map_of ps k of
              None \<Rightarrow> None
            | Some v \<Rightarrow> if v = Undefined \<or> is_callable v then None else Some (json_of v))"
  using assms
proof (induction ps)
  case Nil
  show ?case by simp
next
  case (Cons p ps)
  obtain k' v' where p: "p = (k', v')" by (cases p)
  from Cons.prems p have absent: "k' \<notin> set (map fst ps)" and d: "distinct (map fst ps)"
    by simp_all
  from absent have n: "map_of ps k' = None"
    by (simp add: map_of_eq_None_iff)
  from Cons.IH [OF d] n p show ?case
    by (cases "k = k'") (auto split: option.splits)
qed

text \<open>
  What \<open>_readFromFile\<close> finds under a string key after \<open>_writeToFile\<close> has written a
  \<open>Map\<close> with string keys: nothing when the \<open>Map\<close> has no such key, or has it with the
  value \<open>undefined\<close> or a function; otherwise the value as \<open>JSON.parse\<close> rebuilds it.
\<close>

lemma decode_encode_get:
  assumes "distinct (Map_keys d)" and "\<forall>k \<in> set (Map_keys d). is_string k"
    and "encode d = Inr t"
  shows "\<exists>d2. decode t = Inr d2
           \<and> (\<forall>k. Map_get d2 (KStr k)
                  = (if Map_get d (KStr k) = Undefined \<or> is_callable (Map_get d (KStr k))
                     then Undefined else js_of (json_of (Map_get d (KStr k)))))"
proof -
  let ?f = "\<lambda>a (k, v). define_prop k v a"
  let ?E = "map (\<lambda>(k, v). (ToString k, v)) d"
  let ?P = "foldl ?f [] ?E"
  let ?J = "json_of_props ?P"
  let ?J' = "map (\<lambda>(k, j). (k, js_of j)) ?J"
  let ?M = "foldl ?f [] ?J'"
  let ?es = "map (\<lambda>(k, v). (KStr k, v)) ?M"
  have dE: "distinct (map fst ?E)"
    using assms(1,2) by (intro string_keys_distinct) (simp_all add: Map_keys_def)
  have P: "map_of ?P = map_of ?E" and dP: "distinct (map fst ?P)"
    using fold_define_props [of "[]" ?E] map_of_rev_distinct [OF dE] by simp_all
  from dP have dJ: "distinct (map fst ?J)" by (rule json_of_props_distinct)
  have "map fst (map (\<lambda>(k, j). (k, js_of j)) xs) = map fst xs" for xs
    by (induction xs) auto
  then have kJ': "map fst ?J' = map fst ?J" .
  from dJ have dJ': "distinct (map fst ?J')" by (simp only: kJ')
  have M: "map_of ?M = map_of ?J'" and dM: "distinct (map fst ?M)"
    using fold_define_props [of "[]" ?J'] map_of_rev_distinct [OF dJ'] by simp_all
  have t: "t = JsonText (JObj ?J)"
    using encode_Inr [OF assms(3)] by (simp add: fromEntries_fold)
  have dec: "decode t = Inr (new_Map ?es)"
    unfolding t by (simp add: decode_def js_of_members_fold)
  have get: "Map_get (new_Map ?es) (KStr k)
       = (if Map_get d (KStr k) = Undefined \<or> is_callable (Map_get d (KStr k))
          then Undefined else js_of (json_of (Map_get d (KStr k))))" for k
  proof -
    have E: "map_of ?E k = (if Map_has d (KStr k) then Some (Map_get d (KStr k)) else None)"
      using assms(1,2) unfolding Map_keys_def
    proof (induction d)
      case Nil
      show ?case by simp
    next
      case (Cons e d)
      obtain k' v' where e: "e = (k', v')" by (cases e)
      from Cons.prems e obtain s where k': "k' = KStr s" by (cases k') auto
      from Cons.prems e k' have absent: "s = k \<Longrightarrow> \<not> Map_has d (KStr k)"
        by (auto simp: Map_has_keys Map_keys_def)
      from Cons e k' absent show ?case by auto
    qed
    have J: "map_of ?J k
        = (case map_of ?E k of
             None \<Rightarrow> None
           | Some v \<Rightarrow> if v = Undefined \<or> is_callable v then None else Some (json_of v))"
      using json_of_props_map_of [OF dP, of k] by (simp only: P)
    have J': "map_of ?J' k = map_option js_of (map_of ?J k)"
      by (simp add: map_of_map)
    have "map_of (rev ?es) (KStr k) = map_of (rev ?M) k"
      by (simp only: rev_map map_of_KStr_keys)
    also have "\<dots> = map_of ?J' k"
      using map_of_rev_distinct [OF dM] M by simp
    finally have "Map_get (new_Map ?es) (KStr k)
        = (case map_of ?J' k of None \<Rightarrow> Undefined | Some v \<Rightarrow> v)"
      by (simp add: new_Map_def Map_get_fold_set split: option.splits)
    then show ?thesis
      by (simp only: J' J E) (auto simp: Map_get_absent)
  qed
  from dec get show ?thesis by blast
qed

lemma new_Map_wf:
  "distinct (Map_keys (new_Map es)) \<and> set (Map_keys (new_Map es)) \<subseteq> set (map fst es)"
proof -
  have "distinct (Map_keys acc) \<Longrightarrow>
      distinct (Map_keys (foldl (\<lambda>d (k, v). Map_set d k v) acc es))
      \<and> set (Map_keys (foldl (\<lambda>d (k, v). Map_set d k v) acc es))
          \<subseteq> set (Map_keys acc) \<union> set (map fst es)" for acc
  proof (induction es arbitrary: acc)
    case Nil
    then show ?case by simp
  next
    case (Cons e es)
    obtain k v where e: "e = (k, v)" by (cases e)
    from Cons.prems have "distinct (Map_keys (Map_set acc k v))"
      by (rule distinct_Map_set)
    from Cons.IH [OF this] e show ?case
      by (auto simp: Map_keys_set split: if_splits)
  qed
  from this [of "[]"] show ?thesis by (simp add: new_Map_def Map_keys_def)
qed

lemma Object_entries_strings:
  assumes "Object_entries v = Inr es"
  shows "\<forall>k \<in> set (map fst es). is_string k"
  using assms by (cases v) auto

lemma decode_wf:
  assumes "decode t = Inr d"
  shows "distinct (Map_keys d) \<and> (\<forall>k \<in> set (Map_keys d). is_string k)"
proof -
  from assms obtain v es where oe: "Object_entries v = Inr es" and d: "d = new_Map es"
    by (auto simp: decode_def split: sum.splits)
  from oe have "\<forall>k \<in> set (map fst es). is_string k" by (rule Object_entries_strings)
  with new_Map_wf [of es] d show ?thesis by blast
qed

lemma readFromFile_wf:
  assumes "readFromFile s held = Inr d"
  shows "distinct (Map_keys d) \<and> (\<forall>k \<in> set (Map_keys d). is_string k) \<and> storable d"
proof -
  from assms have "d = [] \<or> (\<exists>t. decode t = Inr d)"
    by (auto simp: readFromFile_def split: option.splits listing.splits sum.splits if_splits)
  then show ?thesis
    using decode_wf decode_storable by (auto simp: Map_keys_def storable_Nil)
qed

subsection \<open>The heap and the frame of a flush\<close>

lemma deref_assign: "r < length (heap s) \<Longrightarrow> deref (assign s r d) r = d"
  by (simp add: deref_def assign_def)

lemma deref_heap_cong: "heap s = heap s' \<Longrightarrow> deref s r = deref s' r"
  by (simp add: deref_def)

lemma writeToFile_frame:
  "heap (snd (writeToFile s r h)) = heap s"
  "listing (snd (writeToFile s r h)) = listing s"
  "useCache (snd (writeToFile s r h)) = useCache s"
  "delayedWrite (snd (writeToFile s r h)) = delayedWrite s"
  "dataCache (snd (writeToFile s r h)) = dataCache s"
  "writeScheduled (snd (writeToFile s r h)) = writeScheduled s"
  "timers (snd (writeToFile s r h)) = timers s"
  "inflight (snd (writeToFile s r h)) = inflight s"
  "lockHeld (snd (writeToFile s r h)) = lockHeld s"
  "unhandled (snd (writeToFile s r h)) = unhandled s"
  "watching (snd (writeToFile s r h)) = watching s"
  "writable (snd (writeToFile s r h)) = writable s"
  "events (snd (writeToFile s r h)) = events s"
  by (simp_all add: writeToFile_def file_written_def
      split: listing.splits sum.splits option.splits)

lemma flush_frame:
  "heap (snd (flushDataIfNeeded s r h)) = heap s"
  "listing (snd (flushDataIfNeeded s r h)) = listing s"
  "useCache (snd (flushDataIfNeeded s r h)) = useCache s"
  "delayedWrite (snd (flushDataIfNeeded s r h)) = delayedWrite s"
  "dataCache (snd (flushDataIfNeeded s r h)) = dataCache s"
  "inflight (snd (flushDataIfNeeded s r h)) = inflight s"
  "lockHeld (snd (flushDataIfNeeded s r h)) = lockHeld s"
  "unhandled (snd (flushDataIfNeeded s r h)) = unhandled s"
  "watching (snd (flushDataIfNeeded s r h)) = watching s"
  "writable (snd (flushDataIfNeeded s r h)) = writable s"
  "events (snd (flushDataIfNeeded s r h)) = events s"
  by (simp_all add: flushDataIfNeeded_def writeToFile_frame)

lemma flush_empty: "deref s r = [] \<Longrightarrow> flushDataIfNeeded s r h = (None, s)"
  by (simp add: flushDataIfNeeded_def Map_size_def)

lemma obtain_data_frame:
  assumes "obtain_data s h = Inr (r, s1)"
  shows "dbFile s1 = dbFile s" "written s1 = written s" "timers s1 = timers s"
    "writeScheduled s1 = writeScheduled s" "delayedWrite s1 = delayedWrite s"
    "useCache s1 = useCache s" "listing s1 = listing s" "events s1 = events s"
    "watching s1 = watching s" "inflight s1 = inflight s" "lockHeld s1 = lockHeld s"
    "queue s1 = queue s" "unhandled s1 = unhandled s" "writable s1 = writable s"
    "dataCache s1 = dataCache s"
  using assms by (auto simp: obtain_data_def split: if_splits option.splits sum.splits)

lemma keep_assign_frame:
  "dbFile (keep_cache (assign s r d) r') = dbFile s"
  "written (keep_cache (assign s r d) r') = written s"
  "timers (keep_cache (assign s r d) r') = timers s"
  "writeScheduled (keep_cache (assign s r d) r') = writeScheduled s"
  "delayedWrite (keep_cache (assign s r d) r') = delayedWrite s"
  "useCache (keep_cache (assign s r d) r') = useCache s"
  "listing (keep_cache (assign s r d) r') = listing s"
  "events (keep_cache (assign s r d) r') = events s"
  "watching (keep_cache (assign s r d) r') = watching s"
  "inflight (keep_cache (assign s r d) r') = inflight s"
  "lockHeld (keep_cache (assign s r d) r') = lockHeld s"
  "queue (keep_cache (assign s r d) r') = queue s"
  "unhandled (keep_cache (assign s r d) r') = unhandled s"
  "writable (keep_cache (assign s r d) r') = writable s"
  "heap (keep_cache (assign s r d) r') = (heap s)[r := d]"
  by (simp_all add: keep_cache_def assign_def)

text \<open>
  A mutating call either rejects before it has changed anything, or it changes the
  \<open>Map\<close> it obtained and ends with the flush decision on it.
\<close>

lemma mutate_shape:
  "(\<exists>e. mutate s c = (Some e, s))
   \<or> (\<exists>r s1 d. obtain_data s (under_lock s) = Inr (r, s1)
        \<and> mutate s c = flushDataIfNeeded (keep_cache (assign s1 r d) r) r (under_lock s))"
  by (cases c)
     (auto simp: create_def update_def delete_def batchWrite_def
           split: if_splits sum.splits prod.splits)

subsection \<open>The flush decision on an empty dataset\<close>




subsection \<open>Malformed file content\<close>

text \<open>
  Claim C4. When \<open>JSON.parse\<close> rejects the text of the file, \<open>_readFromFile\<close> of the
  second listing returns an empty \<open>Map\<close>; \<open>_readFromFile\<close> of the first listing has no
  \<open>catch\<close> and rejects: with the parse error, or at its start with \<open>ELOCKED\<close> when
  the lock is held.
\<close>

theorem readFromFile_malformed:
  assumes "dbFile s = Some t" and "JSON_parse t = Inl e"
  shows "readFromFile s False
         = (case listing s of
              Locking \<Rightarrow> Inl (if lockHeld s then ELOCKED else e)
            | Queued \<Rightarrow> Inr [])"
  using assms by (simp add: readFromFile_def decode_def split: listing.splits)

theorem readFromFile_malformed_witness:
  "readFromFile (SimpleDB Locking (opts (Some False) None) (Some (BadText ''not json''))) False
     = Inl SyntaxError
   \<and> read (SimpleDB Locking (opts (Some False) None) (Some (BadText ''not json'')))
       (KStr ''a'')
     = Inl SyntaxError
   \<and> readFromFile (SimpleDB Queued (opts (Some False) None) (Some (BadText ''not json''))) False
     = Inr []"
proof -
  let ?l = "SimpleDB Locking (opts (Some False) None) (Some (BadText ''not json''))"
  let ?q = "SimpleDB Queued (opts (Some False) None) (Some (BadText ''not json''))"
  have l: "dbFile ?l = Some (BadText ''not json'')" "listing ?l = Locking" "\<not> useCache ?l"
    "\<not> lockHeld ?l"
    by (simp_all add: SimpleDB_def initialize_def)
  have q: "dbFile ?q = Some (BadText ''not json'')" "listing ?q = Queued"
    by (simp_all add: SimpleDB_def initialize_def)
  have p: "JSON_parse (BadText ''not json'') = Inl SyntaxError" by simp
  from readFromFile_malformed [OF l(1) p] readFromFile_malformed [OF q(1) p] l q
  show ?thesis by (simp add: read_def current_data_def)
qed

subsection \<open>A failed resynchronisation\<close>

text \<open>
  Claim C9. When the read of the file fails in the watcher's listener, the listener
  emits an error event and changes nothing else: the cache field and every \<open>Map\<close> are
  as before, and a \<open>read\<close> answers as it did before.
\<close>

theorem watcher_read_failure:
  assumes "readFromFile s False = Inl e"
  shows "watch_callback s True = s\<lparr>events := events s @ [ErrorEvent e]\<rparr>
       \<and> dataCache (watch_callback s True) = dataCache s
       \<and> heap (watch_callback s True) = heap s
       \<and> current_data (watch_callback s True) = current_data s
       \<and> read (watch_callback s True) key = read s key"
proof -
  have w: "watch_callback s True = s\<lparr>events := events s @ [ErrorEvent e]\<rparr>"
    using assms by (simp add: watch_callback_def)
  have c: "current_data (s\<lparr>events := events s @ [ErrorEvent e]\<rparr>) = current_data s"
    by (simp add: current_data_def readFromFile_def deref_def split: option.splits)
  from w c show ?thesis by (simp add: read_def)
qed

theorem watcher_read_failure_witness:
  "watch_callback
     (external_write (SimpleDB Queued (opts None None) (Some (JsonText (JObj [(''a'', JNum 1)])))) None)
     True
   = (external_write (SimpleDB Queued (opts None None) (Some (JsonText (JObj [(''a'', JNum 1)])))) None)
       \<lparr>events := [ErrorEvent IOFailure]\<rparr>
   \<and> read (watch_callback
        (external_write (SimpleDB Queued (opts None None) (Some (JsonText (JObj [(''a'', JNum 1)])))) None)
        True) (KStr ''a'') = Inr (Num 1)"
proof -
  let ?s = "external_write
    (SimpleDB Queued (opts None None) (Some (JsonText (JObj [(''a'', JNum 1)])))) None"
  have f: "readFromFile ?s False = Inl IOFailure"
    by (simp add: readFromFile_def external_write_def SimpleDB_def initialize_def
        split: sum.splits)
  have e: "events ?s = []"
    by (simp add: external_write_def SimpleDB_def initialize_def decode_def new_Map_def)
  have r: "read ?s (KStr ''a'') = Inr (Num 1)"
    by code_simp
  note w = watcher_read_failure [OF f, of "KStr ''a''"]
  from w have a: "watch_callback ?s True = ?s\<lparr>events := events ?s @ [ErrorEvent IOFailure]\<rparr>"
    by (rule conjunct1)
  from w have b: "read (watch_callback ?s True) (KStr ''a'') = read ?s (KStr ''a'')"
    by (elim conjE)
  have "watch_callback ?s True = ?s\<lparr>events := [ErrorEvent IOFailure]\<rparr>"
    by (subst a) (simp only: e append_Nil)
  moreover have "read (watch_callback ?s True) (KStr ''a'') = Inr (Num 1)"
    by (simp only: b r)
  ultimately show ?thesis by (rule conjI)
qed

subsection \<open>Pages\<close>

lemma page_keys_page:
  assumes "1 \<le> pn" and "0 \<le> ps"
  shows "page_keys d pn ps = take (nat ps) (drop (nat ((pn - 1) * ps)) (Map_keys d))"
proof -
  have "pn * ps = (pn - 1) * ps + ps" by (simp add: algebra_simps)
  moreover from assms have "0 \<le> (pn - 1) * ps" by simp
  ultimately show ?thesis
    using slice_nonneg [of "(pn - 1) * ps" ps "Map_keys d"] assms(2)
    by (simp add: page_keys_def)
qed

lemma readPage_page:
  assumes "current_data s = Inr d" and "distinct (Map_keys d)" and "1 \<le> pn" and "0 \<le> ps"
  shows "readPage s (Some pn) (Some ps)
         = Inr (Object_fromEntries (take (nat ps) (drop (nat ((pn - 1) * ps)) d)))"
  using assms(1) page_keys_page [OF assms(3,4), of d] page_data_sublist [OF assms(2)]
  by (simp add: readPage_def)

text \<open>
  Claim C7, as the code has it. For a dataset with distinct keys, a page number from 1
  on and a page size from 0 on, \<open>readPage\<close> takes the keys at the positions from
  \<open>(pageNumber - 1) * pageSize\<close> up to, not including, \<open>pageNumber * pageSize\<close>, in the
  order of the dataset, and returns the object built from their entries in that order.
  With string keys the object has exactly these entries; it lists them in the order of
  the dataset when no key is an array index. A page past the end is empty, and so is
  page 0. Without arguments the call is that of page 1 with size 10.
\<close>

theorem readPage_pages:
  assumes "current_data s = Inr d" and "distinct (Map_keys d)"
  shows "(1 \<le> pn \<and> 0 \<le> ps \<longrightarrow>
            page_keys d pn ps = take (nat ps) (drop (nat ((pn - 1) * ps)) (Map_keys d))
          \<and> readPage s (Some pn) (Some ps)
              = Inr (Object_fromEntries (take (nat ps) (drop (nat ((pn - 1) * ps)) d))))
       \<and> (1 \<le> pn \<and> 0 \<le> ps \<and> (\<forall>k \<in> set (Map_keys d). is_string k) \<longrightarrow>
            (\<exists>props. readPage s (Some pn) (Some ps) = Inr (Obj props)
               \<and> distinct (map fst props)
               \<and> set props = set (map (\<lambda>(k, v). (ToString k, v))
                                   (take (nat ps) (drop (nat ((pn - 1) * ps)) d)))))
       \<and> (1 \<le> pn \<and> 0 \<le> ps
            \<and> (\<forall>k \<in> set (Map_keys d). is_string k \<and> \<not> is_array_index (ToString k)) \<longrightarrow>
            readPage s (Some pn) (Some ps)
              = Inr (Obj (map (\<lambda>(k, v). (ToString k, v))
                            (take (nat ps) (drop (nat ((pn - 1) * ps)) d)))))
       \<and> (1 \<le> pn \<and> 0 \<le> ps \<and> int (length d) \<le> (pn - 1) * ps \<longrightarrow>
            readPage s (Some pn) (Some ps) = Inr (Obj []))
       \<and> (0 \<le> ps \<longrightarrow> readPage s (Some 0) (Some ps) = Inr (Obj []))
       \<and> readPage s None None = readPage s (Some 1) (Some 10)"
proof -
  let ?page = "take (nat ps) (drop (nat ((pn - 1) * ps)) d)"
  let ?str = "map (\<lambda>(k, v). (ToString k, v)) ?page"
  have sub: "fst ` set ?page \<subseteq> set (Map_keys d)"
    unfolding Map_keys_def by (auto dest!: in_set_takeD in_set_dropD)
  have dist: "distinct (map fst ?page)"
    using assms(2) unfolding Map_keys_def
    by (simp add: take_map [symmetric] drop_map [symmetric] distinct_take distinct_drop)
  have a: "page_keys d pn ps = take (nat ps) (drop (nat ((pn - 1) * ps)) (Map_keys d))
      \<and> readPage s (Some pn) (Some ps) = Inr (Object_fromEntries ?page)"
    if "1 \<le> pn \<and> 0 \<le> ps"
    using that page_keys_page [of pn ps d] readPage_page [OF assms, of pn ps] by simp
  have b: "\<exists>props. readPage s (Some pn) (Some ps) = Inr (Obj props)
               \<and> distinct (map fst props) \<and> set props = set ?str"
    if "1 \<le> pn \<and> 0 \<le> ps \<and> (\<forall>k \<in> set (Map_keys d). is_string k)"
  proof -
    from that sub have "\<forall>k \<in> fst ` set ?page. is_string k" by blast
    with dist have "distinct (map fst [] @ map fst ?str)"
      using string_keys_distinct [of ?page] by simp
    from fold_define_set [OF this] a that show ?thesis
      by (simp add: fromEntries_fold)
  qed
  have c: "readPage s (Some pn) (Some ps) = Inr (Obj ?str)"
    if "1 \<le> pn \<and> 0 \<le> ps
        \<and> (\<forall>k \<in> set (Map_keys d). is_string k \<and> \<not> is_array_index (ToString k))"
  proof -
    from that sub have s: "\<forall>k \<in> fst ` set ?page. is_string k"
      and n: "\<forall>k \<in> fst ` set ?page. \<not> is_array_index (ToString k)"
      by blast+
    from s dist have "distinct (map fst [] @ map fst ?str)"
      using string_keys_distinct [of ?page] by simp
    moreover from n have "\<forall>k \<in> fst ` set ?str. \<not> is_array_index k"
      by force
    ultimately have "foldl (\<lambda>a (k, v). define_prop k v a) [] ?str = [] @ ?str"
      by (rule fold_define_plain)
    with a that show ?thesis by (simp add: fromEntries_fold)
  qed
  have e: "readPage s (Some pn) (Some ps) = Inr (Obj [])"
    if "1 \<le> pn \<and> 0 \<le> ps \<and> int (length d) \<le> (pn - 1) * ps"
  proof -
    from that have "length d \<le> nat ((pn - 1) * ps)" by linarith
    then have "?page = []" by simp
    with a that show ?thesis by (simp add: Object_fromEntries_def)
  qed
  have z: "readPage s (Some 0) (Some ps) = Inr (Obj [])" if "0 \<le> ps"
    using that assms(1) slice_page_zero [of ps "Map_keys d"]
    by (simp add: readPage_def page_keys_def page_data_def Object_fromEntries_def)
  have dflt: "readPage s None None = readPage s (Some 1) (Some 10)"
    by (simp add: readPage_def)
  from a b c e z dflt show ?thesis by blast
qed


theorem readPage_pages_witness:
  "readPage (SimpleDB Queued (opts None None)
       (Some (JsonText (JObj [(''a'', JNum 1), (''b'', JNum 2), (''c'', JNum 3)]))))
     (Some 1) (Some 2) = Inr (Obj [(''a'', Num 1), (''b'', Num 2)])
   \<and> readPage (SimpleDB Queued (opts None None)
       (Some (JsonText (JObj [(''a'', JNum 1), (''b'', JNum 2), (''c'', JNum 3)]))))
     (Some 2) (Some 2) = Inr (Obj [(''c'', Num 3)])
   \<and> readPage (SimpleDB Queued (opts None None)
       (Some (JsonText (JObj [(''a'', JNum 1), (''b'', JNum 2), (''c'', JNum 3)]))))
     (Some 3) (Some 2) = Inr (Obj [])
   \<and> readPage (SimpleDB Queued (opts None None)
       (Some (JsonText (JObj [(''a'', JNum 1), (''b'', JNum 2), (''c'', JNum 3)]))))
     (Some 0) (Some 2) = Inr (Obj [])"
proof -
  let ?st = "SimpleDB Queued (opts None None)
       (Some (JsonText (JObj [(''a'', JNum 1), (''b'', JNum 2), (''c'', JNum 3)])))"
  let ?d = "[(KStr ''a'', Num 1), (KStr ''b'', Num 2), (KStr ''c'', Num 3)]"
  have cd: "current_data ?st = Inr ?d" by code_simp
  have di: "distinct (Map_keys ?d)" by (simp add: Map_keys_def)
  have pl: "\<forall>k \<in> set (Map_keys ?d). is_string k \<and> \<not> is_array_index (ToString k)"
    by (simp add: Map_keys_def is_array_index_def is_digit_def)
  note t = readPage_pages [OF cd di]
  note plain = t [THEN conjunct2, THEN conjunct2, THEN conjunct1, rule_format]
  note past = t [THEN conjunct2, THEN conjunct2, THEN conjunct2, THEN conjunct1, rule_format]
  note zero = t [THEN conjunct2, THEN conjunct2, THEN conjunct2, THEN conjunct2,
    THEN conjunct1, rule_format]
  have 1: "readPage ?st (Some 1) (Some 2) = Inr (Obj [(''a'', Num 1), (''b'', Num 2)])"
    using plain [of 1 2] pl by simp
  have 2: "readPage ?st (Some 2) (Some 2) = Inr (Obj [(''c'', Num 3)])"
    using plain [of 2 2] pl by simp
  have 3: "readPage ?st (Some 3) (Some 2) = Inr (Obj [])"
    using past [of 3 2] by simp
  have 4: "readPage ?st (Some 0) (Some 2) = Inr (Obj [])"
    using zero [of 2] by simp
  from 1 2 3 4 show ?thesis by (intro conjI)
qed

text \<open>
  A negative bound of \<open>slice\<close> counts from the end of the keys: with three keys, page
  \<open>-1\<close> of size 2 is the first key, not an empty page. And the object that
  \<open>Object.fromEntries\<close> builds lists a key that is an array index before the others,
  whatever its place in the dataset.
\<close>

theorem readPage_counterexample:
  "readPage (SimpleDB Queued (opts None None)
       (Some (JsonText (JObj [(''a'', JNum 1), (''b'', JNum 2), (''c'', JNum 3)]))))
     (Some (- 1)) (Some 2) = Inr (Obj [(''a'', Num 1)])
   \<and> map_sum id (\<lambda>s. (current_data s, readPage s (Some 1) (Some 10)))
       (run (SimpleDB Queued (opts None None) None)
          [Call (Create (KStr ''b'') (Num 1) False), Call (Create (KStr ''1'') (Num 2) False)])
     = Inr (Inr [(KStr ''b'', Num 1), (KStr ''1'', Num 2)],
            Inr (Obj [(''1'', Num 2), (''b'', Num 1)]))"
  by code_simp

subsection \<open>What a mutating call does to the store\<close>




lemma obtain_cached:
  "useCache s \<Longrightarrow> dataCache s = Some r \<Longrightarrow> obtain_data s h = Inr (r, s)"
  by (simp add: obtain_data_def)

lemma obtain_uncached:
  "\<not> useCache s \<Longrightarrow> readFromFile s h = Inr d \<Longrightarrow>
   obtain_data s h = Inr (length (heap s), s\<lparr>heap := heap s @ [d]\<rparr>)"
  by (simp add: obtain_data_def)

lemma keep_assign_cached:
  "useCache s \<Longrightarrow> dataCache s = Some r \<Longrightarrow> keep_cache (assign s r d) r = assign s r d"
  by (simp add: keep_cache_def assign_def)

lemma keep_assign_uncached:
  "\<not> useCache s \<Longrightarrow>
   keep_cache (assign (s\<lparr>heap := heap s @ [d]\<rparr>) (length (heap s)) d') (length (heap s))
   = s\<lparr>heap := heap s @ [d']\<rparr>"
  by (simp add: keep_cache_def assign_def)

lemma deref_appended: "deref (s\<lparr>heap := heap s @ [d]\<rparr>) (length (heap s)) = d"
  by (simp add: deref_def)

lemma readFromFile_under_lock: "listing s = Locking \<Longrightarrow> readFromFile s True = Inl ELOCKED"
  by (simp add: readFromFile_def)

lemma readFromFile_Queued: "listing s = Queued \<Longrightarrow> readFromFile s h = readFromFile s False"
  by (simp add: readFromFile_def)

text \<open>The three ways the flush decision goes on a dataset that is not empty.\<close>

lemma flush_schedule:
  "deref t r \<noteq> [] \<Longrightarrow> 0 < delayedWrite t \<Longrightarrow> \<not> writeScheduled t \<Longrightarrow>
   flushDataIfNeeded t r h = (None, t\<lparr>writeScheduled := True, timers := timers t @ [r]\<rparr>)"
  by (simp add: flushDataIfNeeded_def Map_size_def)

lemma flush_coalesce:
  "0 < delayedWrite t \<Longrightarrow> writeScheduled t \<Longrightarrow> flushDataIfNeeded t r h = (None, t)"
  by (simp add: flushDataIfNeeded_def)

lemma flush_now:
  "deref t r \<noteq> [] \<Longrightarrow> delayedWrite t \<le> 0 \<Longrightarrow> flushDataIfNeeded t r h = writeToFile t r h"
  by (simp add: flushDataIfNeeded_def Map_size_def)

lemma write_Queued:
  "listing t = Queued \<Longrightarrow> queue t = None \<Longrightarrow> writable t \<Longrightarrow> encode (deref t r) = Inr txt \<Longrightarrow>
   writeToFile t r h = (None, file_written t txt)"
  by (simp add: writeToFile_def)

lemma write_under_lock:
  "listing t = Locking \<Longrightarrow> writeToFile t r True = (Some ELOCKED, t)"
  by (simp add: writeToFile_def)

text \<open>
  The first listing: a mutating call whose flush decision writes at once asks for the
  lock it holds. The change of the cached \<open>Map\<close> is made, nothing is written, and the
  call rejects. Without the cache the call rejects in \<open>_readFromFile\<close>, before any change.
\<close>

lemma flush_under_lock:
  "listing t = Locking \<Longrightarrow> deref t r \<noteq> [] \<Longrightarrow> delayedWrite t \<le> 0 \<Longrightarrow>
   flushDataIfNeeded t r True = (Some ELOCKED, t)"
  by (simp add: flush_now write_under_lock)

lemma mutate_uncached_under_lock:
  assumes "listing s = Locking" and "\<not> useCache s"
  shows "\<exists>e. mutate s c = (Some e, s)"
  using assms
  by (cases c)
     (auto simp: create_def update_def delete_def batchWrite_def obtain_data_def
        under_lock_def readFromFile_under_lock)


lemma delete_cached:
  assumes "useCache s" and "dataCache s = Some r" and "\<not> lock_refused s" and "is_string key"
  shows "delete s key
         = flushDataIfNeeded (assign s r (Map_delete (deref s r) key)) r (under_lock s)"
  using assms by (auto simp: delete_def obtain_cached keep_assign_cached)

lemma batchWrite_cached:
  assumes "useCache s" and "dataCache s = Some r" and "\<not> lock_refused s"
  shows "batchWrite s ops
         = flushDataIfNeeded (assign s r (foldl apply_operation (deref s r) ops)) r
             (under_lock s)"
  using assms by (auto simp: batchWrite_def obtain_cached keep_assign_cached)


lemma delete_uncached:
  assumes "\<not> useCache s" and "listing s = Queued" and "readFromFile s False = Inr d"
    and "is_string key"
  shows "delete s key
         = flushDataIfNeeded (s\<lparr>heap := heap s @ [Map_delete d key]\<rparr>) (length (heap s)) False"
  using assms
  by (auto simp: delete_def obtain_uncached keep_assign_uncached deref_appended
      lock_refused_def under_lock_def)

lemma batchWrite_uncached:
  assumes "\<not> useCache s" and "listing s = Queued" and "readFromFile s False = Inr d"
  shows "batchWrite s ops
         = flushDataIfNeeded (s\<lparr>heap := heap s @ [foldl apply_operation d ops]\<rparr>)
             (length (heap s)) False"
  using assms
  by (auto simp: batchWrite_def obtain_uncached keep_assign_uncached deref_appended
      lock_refused_def under_lock_def)

lemma assign_frame:
  "dbFile (assign s r d) = dbFile s" "written (assign s r d) = written s"
  "timers (assign s r d) = timers s" "writeScheduled (assign s r d) = writeScheduled s"
  "delayedWrite (assign s r d) = delayedWrite s" "useCache (assign s r d) = useCache s"
  "listing (assign s r d) = listing s" "dataCache (assign s r d) = dataCache s"
  "queue (assign s r d) = queue s" "writable (assign s r d) = writable s"
  "lockHeld (assign s r d) = lockHeld s" "inflight (assign s r d) = inflight s"
  "unhandled (assign s r d) = unhandled s" "length (heap (assign s r d)) = length (heap s)"
  by (simp_all add: assign_def)

text \<open>
  The flush decision after the cached \<open>Map\<close> \<open>r\<close> has been given the content \<open>d\<close>, and
  after a \<open>Map\<close> read from the file has.
\<close>

lemma commit_cached:
  assumes "r < length (heap s)" and "d \<noteq> []"
  shows "0 < delayedWrite s \<Longrightarrow> \<not> writeScheduled s \<Longrightarrow>
           flushDataIfNeeded (assign s r d) r h
           = (None, (assign s r d)\<lparr>writeScheduled := True, timers := timers s @ [r]\<rparr>)"
    and "delayedWrite s \<le> 0 \<Longrightarrow> listing s = Queued \<Longrightarrow> queue s = None \<Longrightarrow> writable s \<Longrightarrow>
           encode d = Inr txt \<Longrightarrow>
           flushDataIfNeeded (assign s r d) r h = (None, file_written (assign s r d) txt)"
    and "delayedWrite s \<le> 0 \<Longrightarrow> listing s = Locking \<Longrightarrow>
           flushDataIfNeeded (assign s r d) r True = (Some ELOCKED, assign s r d)"
  using assms
  by (simp_all add: flush_schedule flush_now write_Queued write_under_lock deref_assign
      assign_frame)

lemma commit_uncached:
  assumes "d \<noteq> []"
  shows "0 < delayedWrite s \<Longrightarrow> \<not> writeScheduled s \<Longrightarrow>
           flushDataIfNeeded (s\<lparr>heap := heap s @ [d]\<rparr>) (length (heap s)) h
           = (None, s\<lparr>heap := heap s @ [d], writeScheduled := True,
                      timers := timers s @ [length (heap s)]\<rparr>)"
    and "delayedWrite s \<le> 0 \<Longrightarrow> listing s = Queued \<Longrightarrow> queue s = None \<Longrightarrow> writable s \<Longrightarrow>
           encode d = Inr txt \<Longrightarrow>
           flushDataIfNeeded (s\<lparr>heap := heap s @ [d]\<rparr>) (length (heap s)) h
           = (None, file_written (s\<lparr>heap := heap s @ [d]\<rparr>) txt)"
  using assms
  by (simp_all add: flush_schedule flush_now write_Queued deref_appended)

lemma commit_coalesce:
  "0 < delayedWrite s \<Longrightarrow> writeScheduled s \<Longrightarrow>
   flushDataIfNeeded (assign s r d) r h = (None, assign s r d)"
  "0 < delayedWrite s \<Longrightarrow> writeScheduled s \<Longrightarrow>
   flushDataIfNeeded (s\<lparr>heap := heap s @ [d]\<rparr>) n h = (None, s\<lparr>heap := heap s @ [d]\<rparr>)"
  by (simp_all add: flush_coalesce assign_frame)

text \<open>A \<open>read\<close> of a key after the file has been written from a \<open>Map\<close> read from it.\<close>

lemma read_written:
  assumes "\<not> useCache s" and "listing s = Queued"
    and "distinct (Map_keys d)" and "\<forall>k \<in> set (Map_keys d). is_string k"
    and "encode d = Inr txt"
  shows "read (file_written (s\<lparr>heap := hp\<rparr>) txt) (KStr k)
         = Inr (js_or (if Map_get d (KStr k) = Undefined \<or> is_callable (Map_get d (KStr k))
                       then Undefined else js_of (json_of (Map_get d (KStr k)))) Null)"
proof -
  from decode_encode_get [OF assms(3,4,5)] obtain d2
    where d2: "decode txt = Inr d2"
      and g: "Map_get d2 (KStr k)
              = (if Map_get d (KStr k) = Undefined \<or> is_callable (Map_get d (KStr k))
                 then Undefined else js_of (json_of (Map_get d (KStr k))))"
    by blast
  let ?s' = "file_written (s\<lparr>heap := hp\<rparr>) txt"
  from assms(1,2) d2 have "current_data ?s' = Inr d2"
    by (simp add: current_data_def readFromFile_def file_written_def)
  with g show ?thesis by (simp add: read_def)
qed

lemma current_data_flush:
  assumes "useCache s" and "dataCache s = Some r" and "r < length (heap s)"
  shows "current_data (snd (flushDataIfNeeded (assign s r d) r h)) = Inr d"
proof -
  let ?s' = "snd (flushDataIfNeeded (assign s r d) r h)"
  have "deref ?s' r = deref (assign s r d) r"
    by (rule deref_heap_cong) (simp add: flush_frame)
  with assms show ?thesis
    by (simp add: current_data_def flush_frame assign_frame deref_assign)
qed


lemma Map_delete_wf:
  assumes "distinct (Map_keys d) \<and> (\<forall>k \<in> set (Map_keys d). is_string k) \<and> storable d"
  shows "distinct (Map_keys (Map_delete d key))"
    and "\<forall>k \<in> set (Map_keys (Map_delete d key)). is_string k"
    and "storable (Map_delete d key)"
  using assms
  by (auto simp: distinct_Map_delete Map_keys_delete storable_Map_delete)

subsection \<open>The outcomes of create\<close>




subsection \<open>Invariants of the reachable stores\<close>

lemma encode_error: "encode d = Inl e \<Longrightarrow> e = TypeError"
  by (simp add: encode_def split: if_splits)

lemma queue_ok_writeToFile: "queue_ok s \<Longrightarrow> queue_ok (snd (writeToFile s r h))"
  by (auto simp: queue_ok_def writeToFile_def file_written_def dest: encode_error
      split: listing.splits sum.splits option.splits)

lemma queue_ok_flush: "queue_ok s \<Longrightarrow> queue_ok (snd (flushDataIfNeeded s r h))"
  using queue_ok_writeToFile [of s r h]
  by (auto simp: flushDataIfNeeded_def queue_ok_def)

lemma queue_ok_mutate:
  assumes "queue_ok s"
  shows "queue_ok (snd (mutate s c))"
  using mutate_shape [of s c]
proof (elim disjE exE conjE)
  fix e assume "mutate s c = (Some e, s)"
  with assms show ?thesis by simp
next
  fix r s1 d
  assume od: "obtain_data s (under_lock s) = Inr (r, s1)"
    and m: "mutate s c = flushDataIfNeeded (keep_cache (assign s1 r d) r) r (under_lock s)"
  from assms have "queue_ok (keep_cache (assign s1 r d) r)"
    by (simp add: queue_ok_def keep_assign_frame obtain_data_frame [OF od])
  then show ?thesis unfolding m by (rule queue_ok_flush)
qed

lemma queue_ok_timer_fire: "queue_ok s \<Longrightarrow> queue_ok (timer_fire s)"
  by (auto simp: queue_ok_def timer_fire_def dest: encode_error
      split: list.splits listing.splits sum.splits option.splits)

lemma queue_ok_timer_done: "queue_ok s \<Longrightarrow> queue_ok (timer_done s)"
  by (auto simp: queue_ok_def timer_done_def file_written_def Let_def split: option.splits)

lemma queue_initialize: "queue (initialize s) = queue s"
  by (simp add: initialize_def file_written_def split: option.splits sum.splits)

lemma queue_ok_exec: "queue_ok s \<Longrightarrow> queue_ok (snd (exec s x))"
proof (cases x)
  case (Call c)
  assume "queue_ok s"
  with Call show ?thesis by (simp add: queue_ok_mutate)
next
  case (Watch b)
  assume "queue_ok s"
  with Watch show ?thesis
    by (simp add: queue_ok_def watch_callback_def split: sum.splits)
qed (simp_all add: queue_ok_timer_fire queue_ok_timer_done,
     simp_all add: queue_ok_def external_write_def)

lemma reachable_queue_ok: "reachable s \<Longrightarrow> queue_ok s"
proof (induction rule: reachable.induct)
  case (constructed l os f)
  show ?case by (simp add: queue_ok_def SimpleDB_def Let_def queue_initialize)
next
  case (step s x)
  then show ?case by (simp add: queue_ok_exec)
qed

lemma refs_ok_iff:
  "refs_ok s = ((useCache s \<longrightarrow> (\<exists>r. dataCache s = Some r \<and> r < length (heap s)))
                \<and> (\<forall>r \<in> set (timers s). r < length (heap s)))"
  by (auto simp: refs_ok_def list_all_iff split: option.splits)

lemma refs_ok_flush:
  assumes "refs_ok t" and "r < length (heap t)"
  shows "refs_ok (snd (flushDataIfNeeded t r h))"
proof -
  have w: "refs_ok (snd (writeToFile t r h))"
    using assms(1) by (simp add: refs_ok_iff writeToFile_frame)
  from assms w show ?thesis
    by (auto simp: flushDataIfNeeded_def refs_ok_iff)
qed

lemma refs_ok_mutate:
  assumes "refs_ok s"
  shows "refs_ok (snd (mutate s c))"
  using mutate_shape [of s c]
proof (elim disjE exE conjE)
  fix e assume "mutate s c = (Some e, s)"
  with assms show ?thesis by simp
next
  fix r s1 d
  assume od: "obtain_data s (under_lock s) = Inr (r, s1)"
    and m: "mutate s c = flushDataIfNeeded (keep_cache (assign s1 r d) r) r (under_lock s)"
  let ?t = "keep_cache (assign s1 r d) r"
  from od assms have r: "r < length (heap s1)" and le: "length (heap s) \<le> length (heap s1)"
    by (auto simp: obtain_data_def refs_ok_iff split: if_splits option.splits sum.splits)
  from assms le r have "refs_ok ?t"
    by (auto simp: refs_ok_iff keep_assign_frame obtain_data_frame [OF od]
        keep_cache_def assign_def)
  moreover from r have "r < length (heap ?t)" by (simp add: keep_assign_frame)
  ultimately show ?thesis unfolding m by (rule refs_ok_flush)
qed

lemma refs_ok_timer_fire: "refs_ok s \<Longrightarrow> refs_ok (timer_fire s)"
  by (auto simp: refs_ok_iff timer_fire_def
      split: list.splits listing.splits sum.splits option.splits)

lemma refs_ok_timer_done: "refs_ok s \<Longrightarrow> refs_ok (timer_done s)"
  by (auto simp: refs_ok_iff timer_done_def file_written_def Let_def split: option.splits)

lemma refs_ok_watch: "refs_ok s \<Longrightarrow> refs_ok (watch_callback s b)"
  by (auto simp: refs_ok_iff watch_callback_def less_Suc_eq split: sum.splits)

lemma refs_ok_exec: "refs_ok s \<Longrightarrow> refs_ok (snd (exec s x))"
proof (cases x)
  case (Call c)
  assume "refs_ok s"
  with Call show ?thesis by (simp add: refs_ok_mutate)
qed (simp_all add: refs_ok_timer_fire refs_ok_timer_done refs_ok_watch,
     simp_all add: refs_ok_iff external_write_def)

lemma refs_ok_constructed: "refs_ok (SimpleDB l os f)"
  by (auto simp: refs_ok_iff SimpleDB_def initialize_def file_written_def Let_def
      split: option.splits sum.splits)

lemma reachable_refs_ok: "reachable s \<Longrightarrow> refs_ok s"
  by (induction rule: reachable.induct) (simp_all add: refs_ok_constructed refs_ok_exec)

lemma flush_inv_flush:
  assumes "flush_inv t"
  shows "flush_inv (snd (flushDataIfNeeded t r h))"
proof -
  have w: "flush_inv (snd (writeToFile t r h))"
    using assms by (simp add: flush_inv_def writeToFile_frame)
  from assms w show ?thesis
    by (auto simp: flushDataIfNeeded_def flush_inv_def)
qed

lemma flush_inv_mutate:
  assumes "flush_inv s"
  shows "flush_inv (snd (mutate s c))"
  using mutate_shape [of s c]
proof (elim disjE exE conjE)
  fix e assume "mutate s c = (Some e, s)"
  with assms show ?thesis by simp
next
  fix r s1 d
  assume od: "obtain_data s (under_lock s) = Inr (r, s1)"
    and m: "mutate s c = flushDataIfNeeded (keep_cache (assign s1 r d) r) r (under_lock s)"
  from assms have "flush_inv (keep_cache (assign s1 r d) r)"
    by (simp add: flush_inv_def keep_assign_frame obtain_data_frame [OF od])
  then show ?thesis unfolding m by (rule flush_inv_flush)
qed

lemma flush_inv_timer_fire: "flush_inv s \<Longrightarrow> flush_inv (timer_fire s)"
  by (auto simp: flush_inv_def timer_fire_def
      split: list.splits listing.splits sum.splits option.splits)

lemma flush_inv_timer_done: "flush_inv s \<Longrightarrow> flush_inv (timer_done s)"
  by (auto simp: flush_inv_def timer_done_def file_written_def Let_def split: option.splits)

lemma flush_inv_exec: "flush_inv s \<Longrightarrow> flush_inv (snd (exec s x))"
proof (cases x)
  case (Call c)
  assume "flush_inv s"
  with Call show ?thesis by (simp add: flush_inv_mutate)
next
  case (Watch b)
  assume "flush_inv s"
  with Watch show ?thesis
    by (simp add: flush_inv_def watch_callback_def split: sum.splits)
qed (simp_all add: flush_inv_timer_fire flush_inv_timer_done,
     auto simp: flush_inv_def external_write_def)

lemma flush_inv_constructed: "flush_inv (SimpleDB l os f)"
  by (auto simp: flush_inv_def SimpleDB_def initialize_def file_written_def Let_def
      split: option.splits sum.splits)

lemma reachable_flush_inv: "reachable s \<Longrightarrow> flush_inv s"
  by (induction rule: reachable.induct) (simp_all add: flush_inv_constructed flush_inv_exec)



subsection \<open>Batches\<close>

lemma obtain_data_errors:
  assumes "obtain_data s h = Inl e"
  shows "e = TypeError \<or> e = IOFailure \<or> e = SyntaxError \<or> e = ELOCKED"
proof -
  have p: "e' = SyntaxError" if "JSON_parse t = Inl e'" for t e'
    using that by (cases t) auto
  have o: "e' = TypeError" if "Object_entries v = Inl e'" for v e'
    using that by (cases v) auto
  have d: "e' = TypeError \<or> e' = SyntaxError" if "decode t = Inl e'" for t e'
    using that p o by (auto simp: decode_def split: sum.splits)
  have "e' = TypeError \<or> e' = IOFailure \<or> e' = SyntaxError \<or> e' = ELOCKED"
    if "readFromFile s h = Inl e'" for e'
    using that d
    by (auto simp: readFromFile_def split: option.splits listing.splits sum.splits if_splits)
  with assms show ?thesis
    by (auto simp: obtain_data_def split: if_splits option.splits sum.splits)
qed

lemma flush_errors:
  assumes "queue_ok t" and "fst (flushDataIfNeeded t r h) = Some e"
  shows "e = TypeError \<or> e = IOFailure \<or> e = ELOCKED"
  using assms
  by (auto simp: flushDataIfNeeded_def writeToFile_def queue_ok_def dest: encode_error
      split: if_splits listing.splits sum.splits option.splits)

lemma batchWrite_errors:
  assumes "queue_ok s" and "fst (batchWrite s ops) = Some e"
  shows "e = TypeError \<or> e = IOFailure \<or> e = SyntaxError \<or> e = ELOCKED"
proof (cases "lock_refused s")
  case True
  with assms(2) show ?thesis by (simp add: batchWrite_def)
next
  case False
  show ?thesis
  proof (cases "obtain_data s (under_lock s)")
    case (Inl e')
    with assms(2) False have "e' = e" by (simp add: batchWrite_def)
    with Inl show ?thesis by (auto dest: obtain_data_errors)
  next
    case (Inr p)
    obtain r s1 where p: "p = (r, s1)" by (cases p)
    let ?t = "keep_cache (assign s1 r (foldl apply_operation (deref s1 r) ops)) r"
    from assms(1) have "queue_ok ?t"
      using Inr p by (simp add: queue_ok_def keep_assign_frame obtain_data_frame)
    moreover from assms(2) False Inr p
    have "fst (flushDataIfNeeded ?t r (under_lock s)) = Some e"
      by (simp add: batchWrite_def)
    ultimately show ?thesis by (auto dest: flush_errors)
  qed
qed



lemma flush_one_write:
  "written (snd (flushDataIfNeeded t r h)) = written t
   \<or> (\<exists>txt. written (snd (flushDataIfNeeded t r h)) = written t @ [txt])"
  by (auto simp: flushDataIfNeeded_def writeToFile_def file_written_def
      split: listing.splits sum.splits option.splits)

lemma flush_one_timer:
  "timers (snd (flushDataIfNeeded t r h)) = timers t
   \<or> timers (snd (flushDataIfNeeded t r h)) = timers t @ [r]"
  by (auto simp: flushDataIfNeeded_def writeToFile_frame)

lemma mutate_one_flush:
  "(written (snd (mutate s c)) = written s
      \<or> (\<exists>txt. written (snd (mutate s c)) = written s @ [txt]))
   \<and> (timers (snd (mutate s c)) = timers s
      \<or> (\<exists>r. timers (snd (mutate s c)) = timers s @ [r]))"
  using mutate_shape [of s c]
proof (elim disjE exE conjE)
  fix e assume "mutate s c = (Some e, s)"
  then show ?thesis by simp
next
  fix r s1 d
  assume od: "obtain_data s (under_lock s) = Inr (r, s1)"
    and m: "mutate s c = flushDataIfNeeded (keep_cache (assign s1 r d) r) r (under_lock s)"
  let ?t = "keep_cache (assign s1 r d) r"
  have "written ?t = written s" "timers ?t = timers s"
    by (simp_all add: keep_assign_frame obtain_data_frame [OF od])
  with flush_one_write [of ?t r "under_lock s"] flush_one_timer [of ?t r "under_lock s"]
  show ?thesis unfolding m by auto
qed

text \<open>The outcomes of a batch on the cached \<open>Map\<close>, by the dataset \<open>d\<close> it leaves there.\<close>

lemma batchWrite_cached_cases:
  assumes "\<not> lock_refused s" and "useCache s" and "dataCache s = Some r"
    and "r < length (heap s)" and "current_data s = Inr d0"
    and "d = foldl apply_operation d0 ops"
  shows "current_data (snd (batchWrite s ops)) = Inr d"
    and "d = [] \<Longrightarrow> batchWrite s ops = (None, assign s r d)"
    and "d \<noteq> [] \<Longrightarrow> 0 < delayedWrite s \<Longrightarrow> \<not> writeScheduled s \<Longrightarrow>
         batchWrite s ops
         = (None, (assign s r d)\<lparr>writeScheduled := True, timers := timers s @ [r]\<rparr>)"
    and "0 < delayedWrite s \<Longrightarrow> writeScheduled s \<Longrightarrow> batchWrite s ops = (None, assign s r d)"
    and "d \<noteq> [] \<Longrightarrow> delayedWrite s \<le> 0 \<Longrightarrow> listing s = Queued \<Longrightarrow> queue s = None \<Longrightarrow>
         writable s \<Longrightarrow> encode d = Inr t \<Longrightarrow>
         batchWrite s ops = (None, file_written (assign s r d) t)"
    and "d \<noteq> [] \<Longrightarrow> delayedWrite s \<le> 0 \<Longrightarrow> listing s = Queued \<Longrightarrow> queue s = None \<Longrightarrow>
         encode d = Inl e \<Longrightarrow>
         batchWrite s ops = (Some e, (assign s r d)\<lparr>queue := Some e\<rparr>)"
proof -
  from assms(2,3,5) have d0: "deref s r = d0" by (simp add: current_data_def)
  have b: "batchWrite s ops = flushDataIfNeeded (assign s r d) r (under_lock s)"
    using batchWrite_cached [OF assms(2,3,1), of ops] d0 assms(6) by simp
  show "current_data (snd (batchWrite s ops)) = Inr d"
    unfolding b using assms(2,3,4) by (rule current_data_flush)
  show "d = [] \<Longrightarrow> batchWrite s ops = (None, assign s r d)"
    unfolding b using assms(4) by (simp add: flush_empty deref_assign)
  show "d \<noteq> [] \<Longrightarrow> 0 < delayedWrite s \<Longrightarrow> \<not> writeScheduled s \<Longrightarrow>
         batchWrite s ops
         = (None, (assign s r d)\<lparr>writeScheduled := True, timers := timers s @ [r]\<rparr>)"
    unfolding b using assms(4) by (simp add: commit_cached)
  show "0 < delayedWrite s \<Longrightarrow> writeScheduled s \<Longrightarrow> batchWrite s ops = (None, assign s r d)"
    unfolding b by (simp add: commit_coalesce)
  show "d \<noteq> [] \<Longrightarrow> delayedWrite s \<le> 0 \<Longrightarrow> listing s = Queued \<Longrightarrow> queue s = None \<Longrightarrow>
         writable s \<Longrightarrow> encode d = Inr t \<Longrightarrow>
         batchWrite s ops = (None, file_written (assign s r d) t)"
    unfolding b using assms(4) by (simp add: commit_cached)
  show "d \<noteq> [] \<Longrightarrow> delayedWrite s \<le> 0 \<Longrightarrow> listing s = Queued \<Longrightarrow> queue s = None \<Longrightarrow>
         encode d = Inl e \<Longrightarrow>
         batchWrite s ops = (Some e, (assign s r d)\<lparr>queue := Some e\<rparr>)"
    unfolding b using assms(4)
    by (simp add: flush_now writeToFile_def deref_assign assign_frame)
qed

text \<open>The outcomes of a batch of the second listing on a \<open>Map\<close> read from the file.\<close>

lemma batchWrite_uncached_cases:
  assumes "listing s = Queued" and "\<not> useCache s" and "current_data s = Inr d0"
    and "d = foldl apply_operation d0 ops"
  shows "d = [] \<Longrightarrow> batchWrite s ops = (None, s\<lparr>heap := heap s @ [d]\<rparr>)"
    and "d \<noteq> [] \<Longrightarrow> 0 < delayedWrite s \<Longrightarrow> \<not> writeScheduled s \<Longrightarrow>
         batchWrite s ops
         = (None, s\<lparr>heap := heap s @ [d], writeScheduled := True,
                    timers := timers s @ [length (heap s)]\<rparr>)"
    and "0 < delayedWrite s \<Longrightarrow> writeScheduled s \<Longrightarrow>
         batchWrite s ops = (None, s\<lparr>heap := heap s @ [d]\<rparr>)"
    and "d \<noteq> [] \<Longrightarrow> delayedWrite s \<le> 0 \<Longrightarrow> queue s = None \<Longrightarrow> writable s \<Longrightarrow>
         encode d = Inr t \<Longrightarrow>
         batchWrite s ops = (None, file_written (s\<lparr>heap := heap s @ [d]\<rparr>) t)"
    and "d \<noteq> [] \<Longrightarrow> delayedWrite s \<le> 0 \<Longrightarrow> queue s = None \<Longrightarrow> encode d = Inl e \<Longrightarrow>
         batchWrite s ops = (Some e, s\<lparr>heap := heap s @ [d], queue := Some e\<rparr>)"
proof -
  from assms(2,3) have rd: "readFromFile s False = Inr d0" by (simp add: current_data_def)
  have b: "batchWrite s ops
           = flushDataIfNeeded (s\<lparr>heap := heap s @ [d]\<rparr>) (length (heap s)) False"
    using batchWrite_uncached [OF assms(2,1) rd, of ops] assms(4) by simp
  show "d = [] \<Longrightarrow> batchWrite s ops = (None, s\<lparr>heap := heap s @ [d]\<rparr>)"
    unfolding b by (simp add: flush_empty deref_appended)
  show "d \<noteq> [] \<Longrightarrow> 0 < delayedWrite s \<Longrightarrow> \<not> writeScheduled s \<Longrightarrow>
         batchWrite s ops
         = (None, s\<lparr>heap := heap s @ [d], writeScheduled := True,
                    timers := timers s @ [length (heap s)]\<rparr>)"
    unfolding b by (simp add: commit_uncached)
  show "0 < delayedWrite s \<Longrightarrow> writeScheduled s \<Longrightarrow>
         batchWrite s ops = (None, s\<lparr>heap := heap s @ [d]\<rparr>)"
    unfolding b by (simp add: commit_coalesce)
  show "d \<noteq> [] \<Longrightarrow> delayedWrite s \<le> 0 \<Longrightarrow> queue s = None \<Longrightarrow> writable s \<Longrightarrow>
         encode d = Inr t \<Longrightarrow>
         batchWrite s ops = (None, file_written (s\<lparr>heap := heap s @ [d]\<rparr>) t)"
    unfolding b using assms(1) by (simp add: commit_uncached)
  show "d \<noteq> [] \<Longrightarrow> delayedWrite s \<le> 0 \<Longrightarrow> queue s = None \<Longrightarrow> encode d = Inl e \<Longrightarrow>
         batchWrite s ops = (Some e, s\<lparr>heap := heap s @ [d], queue := Some e\<rparr>)"
    unfolding b using assms(1)
    by (simp add: flush_now writeToFile_def deref_appended)
qed

lemma create_delete_ops:
  "foldl apply_operation d
     [\<lparr>op_key = k, op_value = v, op_action = Str ''create''\<rparr>,
      \<lparr>op_key = k, op_value = w, op_action = Str ''delete''\<rparr>]
   = Map_delete d k"
proof -
  have "Map_delete (Map_set d k v) k = Map_delete d k"
    by (induction d) auto
  then show ?thesis by (simp add: apply_operation_def)
qed

text \<open>
  Claim C6, as the code has it. Where the call reaches its dataset (it has the lock or
  needs none; the dataset is the cached \<open>Map\<close> or, in the second listing, a \<open>Map\<close> read
  from the file), \<open>batchWrite\<close> applies the operations from left to right, each to the
  result of the one before, and runs the flush decision once, on the final dataset: an
  empty one is not written; with a delay one timer is set up unless a write is pending;
  with no delay the second listing writes once, if its queue is not rejected and the
  file can be written. So the call writes once at most and sets up one timer at most. A
  delete of an absent key changes nothing; create and update set the value whether or
  not the key is present, and the call never rejects with KeyExists. Creating \<open>"a"\<close> then
  deleting \<open>"a"\<close> leaves \<open>"a"\<close> absent from the dataset: with the cache a \<open>read\<close> then
  answers \<open>null\<close>; without the cache it does when the dataset left is not empty and has
  been written at once.
\<close>

theorem batchWrite_in_order_one_flush:
  fixes d :: dataset and ops :: "operation list" and s :: store
  defines "d' \<equiv> foldl apply_operation d ops"
    and "ad \<equiv> [\<lparr>op_key = KStr ''a'', op_value = Num 1, op_action = Str ''create''\<rparr>,
               \<lparr>op_key = KStr ''a'', op_value = Undefined, op_action = Str ''delete''\<rparr>]"
  shows
  "(\<not> lock_refused s \<and> useCache s \<and> dataCache s = Some r \<and> r < length (heap s)
      \<and> current_data s = Inr d \<longrightarrow>
        current_data (snd (batchWrite s ops)) = Inr d'
      \<and> (d' = [] \<longrightarrow> batchWrite s ops = (None, assign s r d'))
      \<and> (d' \<noteq> [] \<and> 0 < delayedWrite s \<and> \<not> writeScheduled s \<longrightarrow>
           batchWrite s ops
           = (None, (assign s r d')\<lparr>writeScheduled := True, timers := timers s @ [r]\<rparr>))
      \<and> (0 < delayedWrite s \<and> writeScheduled s \<longrightarrow>
           batchWrite s ops = (None, assign s r d'))
      \<and> (d' \<noteq> [] \<and> delayedWrite s \<le> 0 \<and> listing s = Queued \<and> queue s = None
           \<and> writable s \<and> encode d' = Inr t \<longrightarrow>
           batchWrite s ops = (None, file_written (assign s r d') t))
      \<and> read (snd (batchWrite s ad)) (KStr ''a'') = Inr Null)
   \<and> (listing s = Queued \<and> \<not> useCache s \<and> current_data s = Inr d \<longrightarrow>
        (d' = [] \<longrightarrow> batchWrite s ops = (None, s\<lparr>heap := heap s @ [d']\<rparr>))
      \<and> (d' \<noteq> [] \<and> 0 < delayedWrite s \<and> \<not> writeScheduled s \<longrightarrow>
           batchWrite s ops
           = (None, s\<lparr>heap := heap s @ [d'], writeScheduled := True,
                      timers := timers s @ [length (heap s)]\<rparr>))
      \<and> (0 < delayedWrite s \<and> writeScheduled s \<longrightarrow>
           batchWrite s ops = (None, s\<lparr>heap := heap s @ [d']\<rparr>))
      \<and> (d' \<noteq> [] \<and> delayedWrite s \<le> 0 \<and> queue s = None \<and> writable s
           \<and> encode d' = Inr t \<longrightarrow>
           batchWrite s ops = (None, file_written (s\<lparr>heap := heap s @ [d']\<rparr>) t))
      \<and> (Map_delete d (KStr ''a'') \<noteq> [] \<and> delayedWrite s \<le> 0 \<and> queue s = None
           \<and> writable s \<longrightarrow>
           fst (batchWrite s ad) = None
           \<and> read (snd (batchWrite s ad)) (KStr ''a'') = Inr Null))
   \<and> foldl apply_operation d (ops1 @ ops2)
       = foldl apply_operation (foldl apply_operation d ops1) ops2
   \<and> (\<not> Map_has d k \<longrightarrow>
        apply_operation d \<lparr>op_key = k, op_value = v, op_action = Str ''delete''\<rparr> = d)
   \<and> (a = Str ''create'' \<or> a = Str ''update'' \<longrightarrow>
        apply_operation d \<lparr>op_key = k, op_value = v, op_action = a\<rparr> = Map_set d k v
        \<and> Map_get (apply_operation d \<lparr>op_key = k, op_value = v, op_action = a\<rparr>) k = v)
   \<and> (reachable s \<longrightarrow> fst (batchWrite s ops) \<noteq> Some KeyExists)
   \<and> (written (snd (batchWrite s ops)) = written s
        \<or> (\<exists>txt. written (snd (batchWrite s ops)) = written s @ [txt]))
   \<and> (timers (snd (batchWrite s ops)) = timers s
        \<or> (\<exists>r'. timers (snd (batchWrite s ops)) = timers s @ [r']))
   \<and> foldl apply_operation d ad = Map_delete d (KStr ''a'')
   \<and> \<not> Map_has (foldl apply_operation d ad) (KStr ''a'')"
proof -
  have d': "d' = foldl apply_operation d ops"
    by (simp add: d'_def)
  have ad: "foldl apply_operation d ad = Map_delete d (KStr ''a'')"
    unfolding ad_def by (rule create_delete_ops)
  have c: "\<not> lock_refused s \<and> useCache s \<and> dataCache s = Some r \<and> r < length (heap s)
      \<and> current_data s = Inr d \<longrightarrow>
        current_data (snd (batchWrite s ops)) = Inr d'
      \<and> (d' = [] \<longrightarrow> batchWrite s ops = (None, assign s r d'))
      \<and> (d' \<noteq> [] \<and> 0 < delayedWrite s \<and> \<not> writeScheduled s \<longrightarrow>
           batchWrite s ops
           = (None, (assign s r d')\<lparr>writeScheduled := True, timers := timers s @ [r]\<rparr>))
      \<and> (0 < delayedWrite s \<and> writeScheduled s \<longrightarrow>
           batchWrite s ops = (None, assign s r d'))
      \<and> (d' \<noteq> [] \<and> delayedWrite s \<le> 0 \<and> listing s = Queued \<and> queue s = None
           \<and> writable s \<and> encode d' = Inr t \<longrightarrow>
           batchWrite s ops = (None, file_written (assign s r d') t))
      \<and> read (snd (batchWrite s ad)) (KStr ''a'') = Inr Null"
  proof (rule impI)
    assume h: "\<not> lock_refused s \<and> useCache s \<and> dataCache s = Some r \<and> r < length (heap s)
      \<and> current_data s = Inr d"
    from h have h1: "\<not> lock_refused s" and h2: "useCache s" and h3: "dataCache s = Some r"
      and h4: "r < length (heap s)" and h5: "current_data s = Inr d"
      by simp_all
    note cs = batchWrite_cached_cases [OF h1 h2 h3 h4 h5 d']
    have "current_data (snd (batchWrite s ad)) = Inr (Map_delete d (KStr ''a''))"
      using batchWrite_cached_cases(1) [OF h1 h2 h3 h4 h5 ad [symmetric]] .
    then have rd: "read (snd (batchWrite s ad)) (KStr ''a'') = Inr Null"
      by (simp add: read_def Map_get_delete js_or_def)
    from cs(1) cs(2) cs(3) cs(4) cs(5) rd
    show "current_data (snd (batchWrite s ops)) = Inr d'
      \<and> (d' = [] \<longrightarrow> batchWrite s ops = (None, assign s r d'))
      \<and> (d' \<noteq> [] \<and> 0 < delayedWrite s \<and> \<not> writeScheduled s \<longrightarrow>
           batchWrite s ops
           = (None, (assign s r d')\<lparr>writeScheduled := True, timers := timers s @ [r]\<rparr>))
      \<and> (0 < delayedWrite s \<and> writeScheduled s \<longrightarrow>
           batchWrite s ops = (None, assign s r d'))
      \<and> (d' \<noteq> [] \<and> delayedWrite s \<le> 0 \<and> listing s = Queued \<and> queue s = None
           \<and> writable s \<and> encode d' = Inr t \<longrightarrow>
           batchWrite s ops = (None, file_written (assign s r d') t))
      \<and> read (snd (batchWrite s ad)) (KStr ''a'') = Inr Null"
      by blast
  qed
  have u: "listing s = Queued \<and> \<not> useCache s \<and> current_data s = Inr d \<longrightarrow>
        (d' = [] \<longrightarrow> batchWrite s ops = (None, s\<lparr>heap := heap s @ [d']\<rparr>))
      \<and> (d' \<noteq> [] \<and> 0 < delayedWrite s \<and> \<not> writeScheduled s \<longrightarrow>
           batchWrite s ops
           = (None, s\<lparr>heap := heap s @ [d'], writeScheduled := True,
                      timers := timers s @ [length (heap s)]\<rparr>))
      \<and> (0 < delayedWrite s \<and> writeScheduled s \<longrightarrow>
           batchWrite s ops = (None, s\<lparr>heap := heap s @ [d']\<rparr>))
      \<and> (d' \<noteq> [] \<and> delayedWrite s \<le> 0 \<and> queue s = None \<and> writable s
           \<and> encode d' = Inr t \<longrightarrow>
           batchWrite s ops = (None, file_written (s\<lparr>heap := heap s @ [d']\<rparr>) t))
      \<and> (Map_delete d (KStr ''a'') \<noteq> [] \<and> delayedWrite s \<le> 0 \<and> queue s = None
           \<and> writable s \<longrightarrow>
           fst (batchWrite s ad) = None
           \<and> read (snd (batchWrite s ad)) (KStr ''a'') = Inr Null)"
  proof (rule impI)
    assume h: "listing s = Queued \<and> \<not> useCache s \<and> current_data s = Inr d"
    from h have h1: "listing s = Queued" and h2: "\<not> useCache s"
      and h3: "current_data s = Inr d"
      by simp_all
    note cs = batchWrite_uncached_cases [OF h1 h2 h3 d']
    have ex: "fst (batchWrite s ad) = None
           \<and> read (snd (batchWrite s ad)) (KStr ''a'') = Inr Null"
      if g: "Map_delete d (KStr ''a'') \<noteq> [] \<and> delayedWrite s \<le> 0 \<and> queue s = None
           \<and> writable s"
    proof -
      let ?d = "Map_delete d (KStr ''a'')"
      from h2 h3 have rf: "readFromFile s False = Inr d" by (simp add: current_data_def)
      note wf = Map_delete_wf [OF readFromFile_wf [OF rf], of "KStr ''a''"]
      from wf(3) obtain w where w: "encode ?d = Inr w" by (simp add: encode_storable)
      from g have b: "batchWrite s ad = (None, file_written (s\<lparr>heap := heap s @ [?d]\<rparr>) w)"
        using batchWrite_uncached_cases(4) [OF h1 h2 h3 ad [symmetric], of w] w by simp
      have "read (file_written (s\<lparr>heap := heap s @ [?d]\<rparr>) w) (KStr ''a'') = Inr Null"
        using read_written [OF h2 h1 wf(1,2) w, of "heap s @ [?d]" "''a''"]
        by (simp add: Map_get_delete js_or_def)
      with b show ?thesis by simp
    qed
    from cs(1) cs(2) cs(3) cs(4) ex
    show "(d' = [] \<longrightarrow> batchWrite s ops = (None, s\<lparr>heap := heap s @ [d']\<rparr>))
      \<and> (d' \<noteq> [] \<and> 0 < delayedWrite s \<and> \<not> writeScheduled s \<longrightarrow>
           batchWrite s ops
           = (None, s\<lparr>heap := heap s @ [d'], writeScheduled := True,
                      timers := timers s @ [length (heap s)]\<rparr>))
      \<and> (0 < delayedWrite s \<and> writeScheduled s \<longrightarrow>
           batchWrite s ops = (None, s\<lparr>heap := heap s @ [d']\<rparr>))
      \<and> (d' \<noteq> [] \<and> delayedWrite s \<le> 0 \<and> queue s = None \<and> writable s
           \<and> encode d' = Inr t \<longrightarrow>
           batchWrite s ops = (None, file_written (s\<lparr>heap := heap s @ [d']\<rparr>) t))
      \<and> (Map_delete d (KStr ''a'') \<noteq> [] \<and> delayedWrite s \<le> 0 \<and> queue s = None
           \<and> writable s \<longrightarrow>
           fst (batchWrite s ad) = None
           \<and> read (snd (batchWrite s ad)) (KStr ''a'') = Inr Null)"
      by blast
  qed
  have k: "reachable s \<longrightarrow> fst (batchWrite s ops) \<noteq> Some KeyExists"
    using batchWrite_errors [OF reachable_queue_ok, of s ops KeyExists] by auto
  have del: "\<not> Map_has d k \<longrightarrow>
        apply_operation d \<lparr>op_key = k, op_value = v, op_action = Str ''delete''\<rparr> = d"
    by (simp add: apply_operation_def Map_delete_absent)
  have st: "a = Str ''create'' \<or> a = Str ''update'' \<longrightarrow>
        apply_operation d \<lparr>op_key = k, op_value = v, op_action = a\<rparr> = Map_set d k v
        \<and> Map_get (apply_operation d \<lparr>op_key = k, op_value = v, op_action = a\<rparr>) k = v"
    by (auto simp: apply_operation_def Map_get_set)
  have app: "foldl apply_operation d (ops1 @ ops2)
       = foldl apply_operation (foldl apply_operation d ops1) ops2"
    by simp
  have o1: "written (snd (batchWrite s ops)) = written s
        \<or> (\<exists>txt. written (snd (batchWrite s ops)) = written s @ [txt])"
    and o2: "timers (snd (batchWrite s ops)) = timers s
        \<or> (\<exists>r'. timers (snd (batchWrite s ops)) = timers s @ [r'])"
    using mutate_one_flush [of s "BatchWrite ops"] by simp_all
  have absent: "\<not> Map_has (foldl apply_operation d ad) (KStr ''a'')"
    by (simp add: ad Map_has_delete)
  from c u app del st k o1 o2 ad absent show ?thesis by (intro conjI)
qed

theorem batchWrite_in_order_one_flush_witness:
  "batchWrite (SimpleDB Queued (opts None None) (Some (JsonText (JObj [(''x'', JNum 1)]))))
     [\<lparr>op_key = KStr ''a'', op_value = Num 1, op_action = Str ''create''\<rparr>,
      \<lparr>op_key = KStr ''a'', op_value = Undefined, op_action = Str ''delete''\<rparr>,
      \<lparr>op_key = KStr ''b'', op_value = Undefined, op_action = Str ''delete''\<rparr>,
      \<lparr>op_key = KRef 1 ''1,2'', op_value = Num 1, op_action = Str ''create''\<rparr>,
      \<lparr>op_key = KRef 2 ''1,2'', op_value = Num 2, op_action = Str ''update''\<rparr>,
      \<lparr>op_key = KStr ''x'', op_value = Num 3, op_action = Str ''create''\<rparr>]
   = (None,
      file_written
        (assign (SimpleDB Queued (opts None None) (Some (JsonText (JObj [(''x'', JNum 1)])))) 1
           [(KStr ''x'', Num 3), (KRef 1 ''1,2'', Num 1), (KRef 2 ''1,2'', Num 2)])
        (JsonText (JObj [(''x'', JNum 3), (''1,2'', JNum 2)])))
   \<and> read (snd (batchWrite
         (SimpleDB Queued (opts None None) (Some (JsonText (JObj [(''x'', JNum 1)]))))
         [\<lparr>op_key = KStr ''a'', op_value = Num 1, op_action = Str ''create''\<rparr>,
          \<lparr>op_key = KStr ''a'', op_value = Undefined, op_action = Str ''delete''\<rparr>]))
       (KStr ''a'') = Inr Null
   \<and> fst (batchWrite
         (SimpleDB Queued (opts (Some False) None)
            (Some (JsonText (JObj [(''x'', JNum 1), (''a'', JNum 7)]))))
         [\<lparr>op_key = KStr ''a'', op_value = Num 1, op_action = Str ''create''\<rparr>,
          \<lparr>op_key = KStr ''a'', op_value = Undefined, op_action = Str ''delete''\<rparr>]) = None
   \<and> read (snd (batchWrite
         (SimpleDB Queued (opts (Some False) None)
            (Some (JsonText (JObj [(''x'', JNum 1), (''a'', JNum 7)]))))
         [\<lparr>op_key = KStr ''a'', op_value = Num 1, op_action = Str ''create''\<rparr>,
          \<lparr>op_key = KStr ''a'', op_value = Undefined, op_action = Str ''delete''\<rparr>]))
       (KStr ''a'') = Inr Null"
proof -
  let ?q = "SimpleDB Queued (opts None None) (Some (JsonText (JObj [(''x'', JNum 1)])))"
  let ?u = "SimpleDB Queued (opts (Some False) None)
              (Some (JsonText (JObj [(''x'', JNum 1), (''a'', JNum 7)])))"
  let ?ops = "[\<lparr>op_key = KStr ''a'', op_value = Num 1, op_action = Str ''create''\<rparr>,
      \<lparr>op_key = KStr ''a'', op_value = Undefined, op_action = Str ''delete''\<rparr>,
      \<lparr>op_key = KStr ''b'', op_value = Undefined, op_action = Str ''delete''\<rparr>,
      \<lparr>op_key = KRef 1 ''1,2'', op_value = Num 1, op_action = Str ''create''\<rparr>,
      \<lparr>op_key = KRef 2 ''1,2'', op_value = Num 2, op_action = Str ''update''\<rparr>,
      \<lparr>op_key = KStr ''x'', op_value = Num 3, op_action = Str ''create''\<rparr>]"
  let ?d = "[(KStr ''x'', Num 1)]"
  let ?e = "[(KStr ''x'', Num 1), (KStr ''a'', Num 7)]"
  let ?t = "JsonText (JObj [(''x'', JNum 3), (''1,2'', JNum 2)])"
  have f: "foldl apply_operation ?d ?ops
           = [(KStr ''x'', Num 3), (KRef 1 ''1,2'', Num 1), (KRef 2 ''1,2'', Num 2)]"
    by code_simp
  have pq: "\<not> lock_refused ?q \<and> useCache ?q \<and> dataCache ?q = Some 1 \<and> 1 < length (heap ?q)
      \<and> current_data ?q = Inr ?d"
    by code_simp
  have pw: "foldl apply_operation ?d ?ops \<noteq> [] \<and> delayedWrite ?q \<le> 0 \<and> listing ?q = Queued
      \<and> queue ?q = None \<and> writable ?q \<and> encode (foldl apply_operation ?d ?ops) = Inr ?t"
    by code_simp
  have pu: "listing ?u = Queued \<and> \<not> useCache ?u \<and> current_data ?u = Inr ?e"
    by code_simp
  have pv: "Map_delete ?e (KStr ''a'') \<noteq> [] \<and> delayedWrite ?u \<le> 0 \<and> queue ?u = None
      \<and> writable ?u"
    by code_simp
  note C = batchWrite_in_order_one_flush
    [where s = ?q and d = ?d and ops = ?ops and r = 1 and t = ?t, THEN conjunct1, THEN mp, OF pq]
  note U = batchWrite_in_order_one_flush
    [where s = ?u and d = ?e, THEN conjunct2, THEN conjunct1, THEN mp, OF pu]
  have 1: "batchWrite ?q ?ops
      = (None, file_written (assign ?q 1 (foldl apply_operation ?d ?ops)) ?t)"
    using C [THEN conjunct2, THEN conjunct2, THEN conjunct2, THEN conjunct2, THEN conjunct1,
        THEN mp, OF pw] .
  have 2: "read (snd (batchWrite ?q
         [\<lparr>op_key = KStr ''a'', op_value = Num 1, op_action = Str ''create''\<rparr>,
          \<lparr>op_key = KStr ''a'', op_value = Undefined, op_action = Str ''delete''\<rparr>]))
       (KStr ''a'') = Inr Null"
    using C [THEN conjunct2, THEN conjunct2, THEN conjunct2, THEN conjunct2, THEN conjunct2] .
  have 3: "fst (batchWrite ?u
         [\<lparr>op_key = KStr ''a'', op_value = Num 1, op_action = Str ''create''\<rparr>,
          \<lparr>op_key = KStr ''a'', op_value = Undefined, op_action = Str ''delete''\<rparr>]) = None
     \<and> read (snd (batchWrite ?u
         [\<lparr>op_key = KStr ''a'', op_value = Num 1, op_action = Str ''create''\<rparr>,
          \<lparr>op_key = KStr ''a'', op_value = Undefined, op_action = Str ''delete''\<rparr>]))
       (KStr ''a'') = Inr Null"
    using U [THEN conjunct2, THEN conjunct2, THEN conjunct2, THEN conjunct2, THEN mp, OF pv] .
  from 1 [unfolded f] 2 3 show ?thesis by (intro conjI) (elim conjE, assumption)+
qed

text \<open>
  Without the cache, the batch of the specification's example works on a \<open>Map\<close> read
  from the file; when the file holds \<open>"a"\<close> and nothing else, the batch leaves that
  \<open>Map\<close> empty, the flush decision writes nothing, and a \<open>read\<close> still finds \<open>"a"\<close>. In
  the first listing with no delay, a batch that leaves the dataset not empty asks in
  \<open>_writeToFile\<close> for the lock it holds: no flush comes about, and the call rejects.
\<close>

theorem batchWrite_counterexample:
  "map_prod id (\<lambda>s. (written s, dbFile s, read s (KStr ''a'')))
     (batchWrite (SimpleDB Queued (opts (Some False) None) (Some (JsonText (JObj [(''a'', JNum 7)]))))
        [\<lparr>op_key = KStr ''a'', op_value = Num 1, op_action = Str ''create''\<rparr>,
         \<lparr>op_key = KStr ''a'', op_value = Undefined, op_action = Str ''delete''\<rparr>])
   = (None, [], Some (JsonText (JObj [(''a'', JNum 7)])), Inr (Num 7))
   \<and> map_prod id (\<lambda>s. (written s, dbFile s, timers s))
     (batchWrite (SimpleDB Locking (opts None None) (Some (JsonText (JObj [(''x'', JNum 1)]))))
        [\<lparr>op_key = KStr ''a'', op_value = Num 1, op_action = Str ''create''\<rparr>])
   = (Some ELOCKED, [], Some (JsonText (JObj [(''x'', JNum 1)])), [])"
  by code_simp




end
